theory Spec2Isabelle
  imports Main "HOL-Library.Word"
begin

unbundle bit_operations_syntax

section \<open>Zig-zag coding (libvast/vast/detail/zigzag.hpp)\<close>

text \<open>
  Both functions are templates over a fixed-width integral type \<open>T\<close>. A value of
  width \<open>w\<close> is a \<open>w word\<close>; the signed and the unsigned reading share the bits,
  so the conversions \<open>make_unsigned_t<T>(x)\<close> and the conversion of the result to the
  return type are the identity on the word (for types narrower than \<open>int\<close>, integer
  promotion happens first and the conversion to the return type truncates again).
  \<open>numeric_limits<T>::digits\<close> of a signed type is its width minus one, and \<open>>>\<close> on
  a signed operand is the arithmetic shift.
\<close>

definition encode :: "'a::len word \<Rightarrow> 'a word" where
  "encode x = (push_bit 1 x) XOR (signed_drop_bit (LENGTH('a) - 1) x)"

definition decode :: "'a::len word \<Rightarrow> 'a word" where
  "decode x = (drop_bit 1 x) XOR (- (x AND 1))"


section \<open>Data model of the store layer\<close>

type_synonym uuid = nat
type_synonym actor = nat
type_synonym promise = nat

text \<open>An id set (\<open>vast::ids\<close>) is a set of record ids; \<open>~xs\<close> is the complement.\<close>

type_synonym ids = "nat set"

datatype ec = lookup_error | format_error | io_error | invalid_query | unspecified

datatype error = Error ec string

record layout =
  layout_name :: string
  layout_fields :: "string list"

type_synonym row = "int list"

text \<open>
  A table slice: one layout and a contiguous id range that starts at the slice's
  offset; the record at position \<open>i\<close> has id \<open>offset + i\<close>.
\<close>

record table_slice =
  slice_layout :: layout
  slice_offset :: nat
  slice_rows :: "row list"

datatype expression =
    no_expression
  | field_equals string int
  | type_is string
  | negation expression
  | conjunction expression expression
  | disjunction expression expression

datatype count_mode = estimate | exact

datatype extract_policy = preserve_ids | drop_ids

datatype command =
    count_cmd actor count_mode
  | extract_cmd actor extract_policy
  | erase_cmd

record query =
  cmd :: command
  expr :: expression

text \<open>
  The expression library (\<open>tailor\<close>, \<open>prune_meta_predicates\<close>, \<open>evaluate\<close>) is
  not part of the store; the store code is parametric in it.
\<close>

record expr_ops =
  tailor :: "expression \<Rightarrow> layout \<Rightarrow> error + expression"
  prune_meta_predicates :: "expression \<Rightarrow> expression"
  evaluate :: "expression \<Rightarrow> table_slice \<Rightarrow> ids"


section \<open>Table slices, segments and the segment builder\<close>

definition slice_ids :: "table_slice \<Rightarrow> nat list" where
  "slice_ids s = [slice_offset s ..< slice_offset s + length (slice_rows s)]"

text \<open>The rows \<open>rs\<close> with their ids, the first row having id \<open>off\<close>.\<close>

definition numbered :: "nat \<Rightarrow> 'a list \<Rightarrow> (nat \<times> 'a) list" where
  "numbered off rs = zip [off ..< off + length rs] rs"

definition slice_records :: "table_slice \<Rightarrow> (nat \<times> row) list" where
  "slice_records s = numbered (slice_offset s) (slice_rows s)"

text \<open>
  Modelled from the spec: \<open>select(slice, ids)\<close> of the table-slice library, which is
  missing from the sources. A slice has a contiguous id range, so restricting a slice
  to an id set gives one sub-slice per maximal run of selected ids, in ascending order.
  \<open>select_rows off rs xs\<close> walks the rows \<open>rs\<close>, the first of which has id \<open>off\<close>.
\<close>

fun select_rows :: "nat \<Rightarrow> row list \<Rightarrow> ids \<Rightarrow> (nat \<times> row list) list" where
  "select_rows off [] xs = []"
| "select_rows off (r # rs) xs =
     (if off \<in> xs then
        (case select_rows (Suc off) rs xs of
           [] \<Rightarrow> [(off, [r])]
         | (off', rs') # rest \<Rightarrow>
             (if off' = Suc off then (off, r # rs') # rest
              else (off, [r]) # (off', rs') # rest))
      else select_rows (Suc off) rs xs)"

definition select :: "table_slice \<Rightarrow> ids \<Rightarrow> table_slice list" where
  "select s xs =
     map (\<lambda>(off, rs). \<lparr>slice_layout = slice_layout s, slice_offset = off, slice_rows = rs\<rparr>)
       (select_rows (slice_offset s) (slice_rows s) xs)"

text \<open>
  The records a checker accepts in a slice. The default-constructed expression
  \<open>expression{}\<close> stands for no restriction.
\<close>

definition hits :: "expr_ops \<Rightarrow> expression \<Rightarrow> table_slice \<Rightarrow> ids" where
  "hits ops checker s = (if checker = no_expression then UNIV else evaluate ops checker s)"

text \<open>
  Modelled from the spec: \<open>count_matching(slice, checker, ids)\<close>, missing from the
  sources: the number of records of the slice whose id is in \<open>ids\<close> and which satisfy the
  checker.
\<close>

definition count_matching :: "expr_ops \<Rightarrow> table_slice \<Rightarrow> expression \<Rightarrow> ids \<Rightarrow> nat" where
  "count_matching ops s checker xs =
     length (filter (\<lambda>i. i \<in> xs \<and> i \<in> hits ops checker s) (slice_ids s))"

text \<open>
  Modelled from the spec: the fused \<open>filter(slice, checker, ids)\<close>, missing from the
  sources: the records of the slice whose id is in \<open>ids\<close> and which satisfy the checker,
  as at most one slice; no slice when no record is left. The ids of the result are not
  kept: its records are renumbered from the input slice's offset.
\<close>

definition filter_slice :: "expr_ops \<Rightarrow> table_slice \<Rightarrow> expression \<Rightarrow> ids \<Rightarrow> table_slice option" where
  "filter_slice ops s checker xs =
     (let kept = map snd (filter (\<lambda>(i, r). i \<in> xs \<and> i \<in> hits ops checker s) (slice_records s))
      in if kept = [] then None else Some (s\<lparr>slice_rows := kept\<rparr>))"

record segment =
  segment_id :: uuid
  segment_slices :: "table_slice list"

text \<open>
  Modelled from the spec: the byte encoding of a segment, missing from the sources. A
  chunk either is the encoding of a segment (what \<open>segment::chunk()\<close> returns and
  \<open>segment::make\<close> parses) or does not parse.
\<close>

datatype chunk = encoded segment | unparsable string

definition segment_make :: "chunk \<Rightarrow> error + segment" where
  "segment_make c =
     (case c of encoded s \<Rightarrow> Inr s | unparsable _ \<Rightarrow> Inl (Error format_error ''not a segment''))"

definition segment_chunk :: "segment \<Rightarrow> chunk" where
  "segment_chunk s = encoded s"

text \<open>
  Modelled from the spec: \<open>segment::lookup\<close>, missing from the sources: exactly the
  slices whose id range intersects \<open>ids\<close>, in the segment's order, not filtered record by
  record. The C++ result type is \<open>caf::expected\<close>; the spec names no failure.
\<close>

definition segment_lookup :: "segment \<Rightarrow> ids \<Rightarrow> error + table_slice list" where
  "segment_lookup seg xs =
     Inr (filter (\<lambda>s. list_ex (\<lambda>i. i \<in> xs) (slice_ids s)) (segment_slices seg))"

text \<open>
  Modelled from the spec: \<open>segment::erase\<close>, missing from the sources: the slices
  obtained by removing every record whose id is in \<open>ids\<close>. The C++ result type is
  \<open>caf::expected\<close>; the spec names no failure.
\<close>

definition segment_erase :: "segment \<Rightarrow> ids \<Rightarrow> error + table_slice list" where
  "segment_erase seg xs = Inr (concat (map (\<lambda>s. select s (- xs)) (segment_slices seg)))"

text \<open>
  Modelled from the spec: the segment builder, missing from the sources. \<open>add\<close> fails
  if the slice's layout conflicts with a layout already added (here: the same layout
  name with different fields); \<open>finish\<close> moves the slices out into a segment that
  carries the builder's id, after which the builder is unusable until \<open>reset\<close>.
\<close>

record segment_builder =
  builder_id :: uuid
  builder_slices :: "table_slice list"
  usable :: bool

definition layout_conflict :: "layout \<Rightarrow> layout \<Rightarrow> bool" where
  "layout_conflict a b = (layout_name a = layout_name b \<and> a \<noteq> b)"

definition builder_add :: "segment_builder \<Rightarrow> table_slice \<Rightarrow> error + segment_builder" where
  "builder_add b s =
     (if \<not> usable b then Inl (Error unspecified ''builder not usable'')
      else if list_ex (\<lambda>t. layout_conflict (slice_layout t) (slice_layout s)) (builder_slices b)
      then Inl (Error unspecified ''layout conflict'')
      else Inr (b\<lparr>builder_slices := builder_slices b @ [s]\<rparr>))"

definition builder_finish :: "segment_builder \<Rightarrow> segment \<times> segment_builder" where
  "builder_finish b =
     (\<lparr>segment_id = builder_id b, segment_slices = builder_slices b\<rparr>,
      b\<lparr>builder_slices := [], usable := False\<rparr>)"

definition builder_reset :: "segment_builder \<Rightarrow> uuid \<Rightarrow> segment_builder" where
  "builder_reset b new_id = \<lparr>builder_id = new_id, builder_slices = [], usable = True\<rparr>"

definition builder_lookup :: "segment_builder \<Rightarrow> ids \<Rightarrow> error + table_slice list" where
  "builder_lookup b xs =
     (if \<not> usable b then Inl (Error unspecified ''builder not usable'')
      else Inr (filter (\<lambda>s. list_ex (\<lambda>i. i \<in> xs) (slice_ids s)) (builder_slices b)))"

fun builder_add_all :: "segment_builder \<Rightarrow> table_slice list \<Rightarrow> error + segment_builder" where
  "builder_add_all b [] = Inr b"
| "builder_add_all b (s # ss) =
     (case builder_add b s of Inl e \<Rightarrow> Inl e | Inr b' \<Rightarrow> builder_add_all b' ss)"

text \<open>
  Modelled from the spec: \<open>segment::copy_without\<close>, missing from the sources: a new
  segment with the same UUID, composing \<open>erase\<close> and a rebuild through the builder.
\<close>

definition copy_without :: "segment \<Rightarrow> ids \<Rightarrow> error + segment" where
  "copy_without seg xs =
     (case segment_erase seg xs of
        Inl e \<Rightarrow> Inl e
      | Inr ss \<Rightarrow>
          (case builder_add_all \<lparr>builder_id = segment_id seg, builder_slices = [], usable = True\<rparr> ss of
             Inl e \<Rightarrow> Inl e
           | Inr b \<Rightarrow> Inr (fst (builder_finish b))))"

definition segment_records :: "segment \<Rightarrow> (nat \<times> row) list" where
  "segment_records seg = concat (map slice_records (segment_slices seg))"

definition segment_ids :: "segment \<Rightarrow> nat set" where
  "segment_ids seg = fst ` set (segment_records seg)"

definition builder_records :: "segment_builder \<Rightarrow> (nat \<times> row) list" where
  "builder_records b = concat (map slice_records (builder_slices b))"

text \<open>No two slices carry conflicting layouts: what a builder guarantees of its content.\<close>

definition layouts_agree :: "table_slice list \<Rightarrow> bool" where
  "layouts_agree ss =
     list_all (\<lambda>s. list_all (\<lambda>t. \<not> layout_conflict (slice_layout t) (slice_layout s)) ss) ss"


section \<open>Messages and effects of the store actors\<close>

datatype response = done_v | failed error

datatype payload = count_result nat | slice_result table_slice

datatype exit_reason = unhandled_exception | user_shutdown

text \<open>
  A path is kept as its directory and the stem and the extension of its filename
  (\<open>archive/7.store\<close> has the extension \<open>store\<close>); \<open>replace_extension\<close> of
  \<open>std::filesystem::path\<close> changes the path it is called on and returns it.
\<close>

record path =
  parent_path :: string
  stem :: string
  extension :: string

text \<open>
  \<open>replace_extension(replacement)\<close> removes the extension and appends a dot and the
  replacement. A filename that has no stem before gets the filename \<open>.replacement\<close>:
  a filename that begins with its only dot is all stem and has no extension.
\<close>

definition replace_extension :: "path \<Rightarrow> string \<Rightarrow> path" where
  "replace_extension p e =
     (if e = [] then p\<lparr>extension := []\<rparr>
      else if stem p = [] then p\<lparr>stem := CHR ''.'' # e, extension := []\<rparr>
      else p\<lparr>extension := e\<rparr>)"

definition has_filename :: "path \<Rightarrow> bool" where
  "has_filename p = (stem p \<noteq> [] \<or> extension p \<noteq> [])"

text \<open>
  What the continuation of the write request captures: the new segment, the old
  path and the new path.
\<close>

record write_continuation =
  cont_seg :: segment
  cont_old_path :: path
  cont_new_path :: path

text \<open>
  The messages a store handles. A request carries the promise through which its
  sender is answered; a message that was forwarded through a default-constructed
  promise has no sender to answer and carries \<open>None\<close>. The response to the write
  request carries the continuation that \<open>.then\<close> registered for it.
\<close>

datatype msg =
    query_msg query ids "promise option"
  | erase_msg ids "promise option"
  | mmap_response "error + chunk"
  | write_response "error + unit" write_continuation
  | exit_msg exit_reason

text \<open>
  What a handler does besides changing the state, in program order: \<open>send\<close> is
  \<open>self->send(sink, x)\<close>; \<open>deliver\<close> answers a request (the handler's return value,
  or \<open>rp.deliver\<close>); \<open>dropped\<close> is a response given to a promise that belongs to no
  request, which nobody receives; \<open>to_self\<close> puts a message into the actor's own
  mailbox (\<open>delegate\<close> to self, \<open>send_exit\<close> to self); \<open>mmap_request\<close> and
  \<open>write_request\<close> are the requests to a filesystem actor, the handle \<open>None\<close> being
  the null handle; \<open>log_error\<close> is \<open>VAST_ERROR\<close>.
\<close>

datatype effect =
    send actor payload
  | deliver promise response
  | dropped response
  | to_self msg
  | mmap_request "actor option" path
  | write_request "actor option" path chunk write_continuation
  | log_error string

text \<open>Answering through the promise a message came with.\<close>

definition answer :: "promise option \<Rightarrow> response \<Rightarrow> effect" where
  "answer rp r = (case rp of None \<Rightarrow> dropped r | Some p \<Rightarrow> deliver p r)"

text \<open>
  A result, or the abort of the process: \<open>die\<close>, or a failed \<open>VAST_ASSERT\<close>. The
  definition of \<open>VAST_ASSERT\<close> is not among the sources. In handle_lookup the
  assertion stands in the erase branch, which no store reaches, and is taken as
  compiled in; in the erase handler of the passive store whether assertions are
  compiled in is a parameter.
\<close>

datatype 'a outcome = returns 'a | aborts string

text \<open>
  The files on disk, and whether the operating system lets a rename succeed.
\<close>

record filesystem =
  files :: "path \<rightharpoonup> chunk"
  rename_fails :: bool

text \<open>
  \<open>std::filesystem::rename(from, to, ec)\<close>: returns whether \<open>ec\<close> is set. A failed rename
  leaves the files as they are; a path without a filename names no file; renaming a
  file to itself changes nothing.
\<close>

definition rename :: "path \<Rightarrow> path \<Rightarrow> filesystem \<Rightarrow> bool \<times> filesystem" where
  "rename from to w =
     (if rename_fails w \<or> \<not> has_filename to then (True, w)
      else (case files w from of
              None \<Rightarrow> (True, w)
            | Some c \<Rightarrow> (False, w\<lparr>files := ((files w)(from := None))(to \<mapsto> c)\<rparr>)))"


section \<open>handle_lookup (libvast/src/system/local_segment_store.cpp)\<close>

text \<open>The first loop: one checker per slice; the first tailoring failure is returned.\<close>

fun make_checkers :: "expr_ops \<Rightarrow> query \<Rightarrow> table_slice list \<Rightarrow> error + expression list" where
  "make_checkers ops q [] = Inr []"
| "make_checkers ops q (sl # sls) =
     (if expr q = no_expression then
        (case make_checkers ops q sls of
           Inl e \<Rightarrow> Inl e
         | Inr cs \<Rightarrow> Inr (no_expression # cs))
      else
        (case tailor ops (expr q) (slice_layout sl) of
           Inl e \<Rightarrow> Inl e
         | Inr c \<Rightarrow>
             (case make_checkers ops q sls of
                Inl e \<Rightarrow> Inl e
              | Inr cs \<Rightarrow> Inr (prune_meta_predicates ops c # cs))))"

text \<open>The body of the \<open>extract\<close> loop for one slice and its checker.\<close>

definition extract_slice ::
  "expr_ops \<Rightarrow> query \<Rightarrow> actor \<Rightarrow> extract_policy \<Rightarrow> ids \<Rightarrow> table_slice \<Rightarrow> expression \<Rightarrow> effect list" where
  "extract_slice ops q sink policy xs sl checker =
     (if policy = preserve_ids then
        concat (map (\<lambda>sub_slice.
          if expr q = no_expression then [send sink (slice_result sub_slice)]
          else map (\<lambda>final_slice. send sink (slice_result final_slice))
                 (select sub_slice (evaluate ops checker sub_slice)))
          (select sl xs))
      else
        (case filter_slice ops sl checker xs of
           None \<Rightarrow> []
         | Some final_slice \<Rightarrow> [send sink (slice_result final_slice)]))"

definition handle_lookup ::
  "expr_ops \<Rightarrow> query \<Rightarrow> ids \<Rightarrow> table_slice list \<Rightarrow> (effect list \<times> response) outcome" where
  "handle_lookup ops q xs sls =
     (case make_checkers ops q sls of
        Inl e \<Rightarrow> returns ([], failed e)
      | Inr checkers \<Rightarrow>
          (case cmd q of
             count_cmd sink mode \<Rightarrow>
               (if mode = estimate then aborts ''logic error detected''
                else returns
                  (map (\<lambda>(sl, checker). send sink (count_result (count_matching ops sl checker xs)))
                     (zip sls checkers),
                   done_v))
           | extract_cmd sink policy \<Rightarrow>
               returns
                 (concat (map (\<lambda>(sl, checker). extract_slice ops q sink policy xs sl checker)
                    (zip sls checkers)),
                  done_v)
           | erase_cmd \<Rightarrow> aborts ''cant lookup an erase query''))"


section \<open>passive_local_store (libvast/src/system/local_segment_store.cpp)\<close>

text \<open>
  The state of the passive store. Its declaration is not among the sources; these
  are the members the actor uses. A promise in \<open>deferred_requests\<close> is \<open>None\<close> when it
  belongs to no request, the handle \<open>fs\<close> is \<open>None\<close> when it is the null handle.
\<close>

record passive_store_state =
  segment :: "segment option"
  deferred_requests :: "(query \<times> ids \<times> promise option) list"
  path :: path
  fs :: "actor option"

text \<open>
  What handling one message leads to: the actor goes on with a new state and the
  effects of the handler; or it terminates with an error; or the process aborts.
\<close>

datatype 's step = continue 's "effect list" | quits error | crashes string

text \<open>
  \<open>passive_local_store(self, fs, path)\<close> sets the exit handler, requests the mmap of
  \<open>path\<close> from \<open>fs\<close> and returns the behaviour. It assigns no member of the state:
  the store starts without a segment and without deferred requests, and
  \<open>self->state.path\<close> and \<open>self->state.fs\<close> stay as default-constructed, the empty
  path and the null handle.
\<close>

definition passive_local_store_spawn :: "actor \<Rightarrow> path \<Rightarrow> passive_store_state \<times> effect list" where
  "passive_local_store_spawn fs_arg path_arg =
     (\<lparr>segment = None, deferred_requests = [],
       path = \<lparr>parent_path = [], stem = [], extension = []\<rparr>, fs = None\<rparr>,
      [mmap_request (Some fs_arg) path_arg])"

text \<open>
  The handler for \<open>(query, ids)\<close>. Without a segment it stores the request with
  \<open>caf::typed_response_promise<atom::done>()\<close>, a default-constructed promise that
  belongs to no request, and returns that promise: the request is not answered now,
  and its own promise is not kept.
\<close>

definition passive_query ::
  "expr_ops \<Rightarrow> passive_store_state \<Rightarrow> query \<Rightarrow> ids \<Rightarrow> promise option \<Rightarrow> passive_store_state step" where
  "passive_query ops st q xs rp =
     (case segment st of
        None \<Rightarrow> continue (st\<lparr>deferred_requests := deferred_requests st @ [(q, xs, None)]\<rparr>) []
      | Some seg \<Rightarrow>
          (if cmd q = erase_cmd then continue st [to_self (erase_msg xs rp)]
           else
             (case segment_lookup seg xs of
                Inl e \<Rightarrow> continue st [answer rp (failed e)]
              | Inr sls \<Rightarrow>
                  (case handle_lookup ops q xs sls of
                     aborts m \<Rightarrow> crashes m
                   | returns (effs, r) \<Rightarrow> continue st (effs @ [answer rp r])))))"

text \<open>
  The handler for \<open>(atom::erase, ids)\<close>; \<open>assertions\<close> says whether \<open>VAST_ASSERT\<close> is
  compiled in. Without a segment the request is stored as an erase query, again with
  a default-constructed promise. \<open>replace_extension\<close> is called on
  \<open>self->state.path\<close> itself, so the state's path changes too. The write is requested
  from \<open>self->state.fs\<close>. The handler returns \<open>atom::done_v\<close> right after issuing the
  write request.
\<close>

definition passive_erase ::
  "bool \<Rightarrow> passive_store_state \<Rightarrow> ids \<Rightarrow> promise option \<Rightarrow> passive_store_state step" where
  "passive_erase assertions st xs rp =
     (case segment st of
        None \<Rightarrow>
          continue (st\<lparr>deferred_requests :=
            deferred_requests st @ [(\<lparr>cmd = erase_cmd, expr = no_expression\<rparr>, xs, None)]\<rparr>) []
      | Some seg \<Rightarrow>
          (case copy_without seg xs of
             Inl e \<Rightarrow>
               continue st [log_error ''could not remove ids from segment'', answer rp (failed e)]
           | Inr new_segment \<Rightarrow>
               (if assertions \<and> \<not> has_filename (path st)
                then crashes ''assertion failed: path has no filename''
                else
                  (let old_path = path st;
                       new_path = replace_extension (path st) ''next''
                   in continue (st\<lparr>path := new_path\<rparr>)
                        [write_request (fs st) new_path (segment_chunk new_segment)
                           \<lparr>cont_seg = new_segment, cont_old_path = old_path,
                            cont_new_path = new_path\<rparr>,
                         answer rp done_v]))))"

text \<open>The two continuations of the write request.\<close>

definition passive_write_done ::
  "passive_store_state \<times> filesystem \<Rightarrow> error + unit \<Rightarrow> write_continuation \<Rightarrow>
     (passive_store_state \<times> filesystem) step" where
  "passive_write_done cfg res k =
     (case res of
        Inr _ \<Rightarrow>
          (let (ec_set, w') = rename (cont_new_path k) (cont_old_path k) (snd cfg)
           in continue ((fst cfg)\<lparr>segment := Some (cont_seg k)\<rparr>, w')
                (if ec_set then [log_error ''failed to erase old data''] else []))
      | Inl err \<Rightarrow> continue cfg [log_error ''failed to flush archive''])"

text \<open>
  The continuation of the mmap request. Only the continuation for a chunk is given
  to \<open>.then\<close>: an error response goes to the actor's default error handler, which
  terminates the actor with that error and runs none of the code of this file. After
  a successful load every deferred request is forwarded to the actor itself through
  its stored promise: the forwarded message has the requester of that promise, which
  for a default-constructed promise is nobody.
\<close>

definition passive_mmap_done :: "passive_store_state \<Rightarrow> error + chunk \<Rightarrow> passive_store_state step" where
  "passive_mmap_done st res =
     (case res of
        Inl err \<Rightarrow> quits err
      | Inr c \<Rightarrow>
          (case segment_make c of
             Inl e \<Rightarrow>
               continue st [log_error ''couldnt create segment from chunk'',
                            to_self (exit_msg unhandled_exception)]
           | Inr seg \<Rightarrow>
               continue (st\<lparr>segment := Some seg, deferred_requests := []\<rparr>)
                 (map (\<lambda>(q, xs, rp). to_self (query_msg q xs rp)) (deferred_requests st))))"

text \<open>
  The exit handler: \<open>lookup_error\<close> is given to the stored promise of every deferred
  request. It does not call \<open>quit\<close>.
\<close>

definition passive_exit :: "passive_store_state \<Rightarrow> passive_store_state step" where
  "passive_exit st =
     continue (st\<lparr>deferred_requests := []\<rparr>)
       (map (\<lambda>(q, xs, rp). answer rp (failed (Error lookup_error ''partition store shutting down'')))
          (deferred_requests st))"

definition with_fs :: "filesystem \<Rightarrow> 's step \<Rightarrow> ('s \<times> filesystem) step" where
  "with_fs w r =
     (case r of
        continue st effs \<Rightarrow> continue (st, w) effs
      | quits e \<Rightarrow> quits e
      | crashes m \<Rightarrow> crashes m)"

text \<open>The behaviour: one message handled by the store, with the files on disk.\<close>

definition passive_local_store ::
  "bool \<Rightarrow> expr_ops \<Rightarrow> passive_store_state \<times> filesystem \<Rightarrow> msg \<Rightarrow>
     (passive_store_state \<times> filesystem) step" where
  "passive_local_store assertions ops cfg m =
     (case m of
        query_msg q xs rp \<Rightarrow> with_fs (snd cfg) (passive_query ops (fst cfg) q xs rp)
      | erase_msg xs rp \<Rightarrow> with_fs (snd cfg) (passive_erase assertions (fst cfg) xs rp)
      | mmap_response res \<Rightarrow> with_fs (snd cfg) (passive_mmap_done (fst cfg) res)
      | write_response res k \<Rightarrow> passive_write_done cfg res k
      | exit_msg r \<Rightarrow> with_fs (snd cfg) (passive_exit (fst cfg)))"

text \<open>
  The actor's mailbox: messages are handled one at a time, in order; a message the
  actor sends to itself goes to the end of the mailbox (an exit message would be
  handled ahead of the others; no property below depends on its place). The trace
  keeps every effect but the messages to the actor itself. The run stops when the
  mailbox is empty, when the actor terminates or when the process aborts; \<open>None\<close>
  means the fuel ran out first.
\<close>

fun self_msgs :: "effect list \<Rightarrow> msg list" where
  "self_msgs [] = []"
| "self_msgs (to_self m # es) = m # self_msgs es"
| "self_msgs (e # es) = self_msgs es"

fun visible :: "effect list \<Rightarrow> effect list" where
  "visible [] = []"
| "visible (to_self m # es) = visible es"
| "visible (e # es) = e # visible es"

datatype end_state =
    idle passive_store_state filesystem
  | terminated error
  | aborted string

fun run ::
  "bool \<Rightarrow> expr_ops \<Rightarrow> nat \<Rightarrow> passive_store_state \<times> filesystem \<Rightarrow> msg list \<Rightarrow>
     (effect list \<times> end_state) option" where
  "run assertions ops n cfg [] = Some ([], idle (fst cfg) (snd cfg))"
| "run assertions ops 0 cfg (m # mailbox) = None"
| "run assertions ops (Suc n) cfg (m # mailbox) =
     (case passive_local_store assertions ops cfg m of
        quits e \<Rightarrow> Some ([], terminated e)
      | crashes t \<Rightarrow> Some ([], aborted t)
      | continue cfg' effs \<Rightarrow>
          (case run assertions ops n cfg' (mailbox @ self_msgs effs) of
             None \<Rightarrow> None
           | Some (trace, fin) \<Rightarrow> Some (visible effs @ trace, fin)))"


section \<open>active_local_store (libvast/src/system/local_segment_store.cpp)\<close>

record active_store_state =
  builder :: segment_builder

text \<open>The handler for \<open>(query, ids)\<close>: the lookup comes before the test for erase.\<close>

definition active_query ::
  "expr_ops \<Rightarrow> active_store_state \<Rightarrow> query \<Rightarrow> ids \<Rightarrow> promise \<Rightarrow> active_store_state step" where
  "active_query ops st q xs rp =
     (case builder_lookup (builder st) xs of
        Inl e \<Rightarrow> continue st [deliver rp (failed e)]
      | Inr sls \<Rightarrow>
          (if cmd q = erase_cmd then continue st [to_self (erase_msg xs (Some rp))]
           else
             (case handle_lookup ops q xs sls of
                aborts m \<Rightarrow> crashes m
              | returns (effs, r) \<Rightarrow> continue st (effs @ [deliver rp r]))))"

text \<open>The replay loop of the erase handler: the result of \<open>add\<close> is not looked at.\<close>

fun replay :: "segment_builder \<Rightarrow> table_slice list \<Rightarrow> segment_builder" where
  "replay b [] = b"
| "replay b (s # ss) =
     (case builder_add b s of Inl e \<Rightarrow> replay b ss | Inr b' \<Rightarrow> replay b' ss)"

text \<open>The handler for \<open>(atom::erase, ids)\<close>.\<close>

definition active_erase ::
  "active_store_state \<Rightarrow> ids \<Rightarrow> promise \<Rightarrow> active_store_state step" where
  "active_erase st xs rp =
     (let (seg, moved_out) = builder_finish (builder st);
          seg_id = segment_id seg
      in case segment_erase seg xs of
           Inl e \<Rightarrow> continue (st\<lparr>builder := moved_out\<rparr>) [deliver rp (failed e)]
         | Inr sls \<Rightarrow>
             continue (st\<lparr>builder := replay (builder_reset moved_out seg_id) sls\<rparr>)
               [deliver rp done_v])"

text \<open>The stream handler for one batch: a slice that cannot be added is logged and dropped.\<close>

fun active_add_batch :: "active_store_state \<Rightarrow> table_slice list \<Rightarrow> active_store_state \<times> effect list" where
  "active_add_batch st [] = (st, [])"
| "active_add_batch st (s # batch) =
     (case builder_add (builder st) s of
        Inl e \<Rightarrow>
          (let (st', effs) = active_add_batch st batch
           in (st', log_error ''failed to add table slice to store'' # effs))
      | Inr b' \<Rightarrow> active_add_batch (st\<lparr>builder := b'\<rparr>) batch)"


section \<open>Query supervisor and its test partitions\<close>

datatype sv_msg = worker_msg actor | count_msg nat | done_msg

text \<open>
  \<open>dummy_partition\<close> of libvast/test/system/query_supervisor.cpp: on a query it sends
  \<open>rank(x)\<close> to the sink of the count command and answers \<open>done\<close>. \<open>caf::get\<close> on a
  command that is not a count fails.
\<close>

definition dummy_partition :: "ids \<Rightarrow> query \<Rightarrow> ((actor \<times> sv_msg) list \<times> response) outcome" where
  "dummy_partition x q =
     (case cmd q of
        count_cmd sink mode \<Rightarrow> returns ([(sink, count_msg (card x))], done_v)
      | extract_cmd sink policy \<Rightarrow> aborts ''bad variant access''
      | erase_cmd \<Rightarrow> aborts ''bad variant access'')"

text \<open>
  The supervisor with the partitions of one query: the partitions that have the query
  in their mailbox (each with the id set it holds), the number of \<open>done\<close> responses in
  the supervisor's mailbox, the number of partitions the supervisor still waits for,
  and every message delivered to the master and to the client, in order of delivery.
\<close>

record sv_system =
  sv_self :: actor
  sv_master :: actor
  sv_client :: actor
  sv_query :: query
  waiting :: "ids list"
  responses :: nat
  open_requests :: nat
  delivered :: "(actor \<times> sv_msg) list"

text \<open>
  Modelled from the spec: the query supervisor, whose source file is missing (its test
  is present). On spawn it registers with its master via \<open>(worker, self)\<close>. On
  \<open>supervise\<close> it sends the query to each partition; it collects the \<open>done\<close>
  responses; when all partitions have signalled \<open>done\<close> it sends \<open>done\<close> to the
  client and registers as idle with the master again.
\<close>

definition query_supervisor :: "actor \<Rightarrow> actor \<Rightarrow> sv_system" where
  "query_supervisor self master =
     \<lparr>sv_self = self, sv_master = master, sv_client = master,
      sv_query = \<lparr>cmd = erase_cmd, expr = no_expression\<rparr>,
      waiting = [], responses = 0, open_requests = 0,
      delivered = [(master, worker_msg self)]\<rparr>"

definition finish_if_complete :: "sv_system \<Rightarrow> sv_system" where
  "finish_if_complete sys =
     (if open_requests sys = 0
      then sys\<lparr>delivered := delivered sys @
             [(sv_client sys, done_msg), (sv_master sys, worker_msg (sv_self sys))]\<rparr>
      else sys)"

definition supervise :: "sv_system \<Rightarrow> query \<Rightarrow> ids list \<Rightarrow> actor \<Rightarrow> sv_system" where
  "supervise sys q parts client =
     finish_if_complete
       (sys\<lparr>sv_client := client, sv_query := q, waiting := parts, responses := 0,
            open_requests := length parts\<rparr>)"

definition supervisor_handles_done :: "sv_system \<Rightarrow> sv_system option" where
  "supervisor_handles_done sys =
     (if responses sys = 0 then None
      else Some (finish_if_complete
                   (sys\<lparr>responses := responses sys - 1, open_requests := open_requests sys - 1\<rparr>)))"

text \<open>The partition at position \<open>i\<close> of the waiting ones handles the query.\<close>

definition partition_handles_query :: "nat \<Rightarrow> sv_system \<Rightarrow> sv_system option" where
  "partition_handles_query i sys =
     (if i < length (waiting sys) then
        (case dummy_partition (waiting sys ! i) (sv_query sys) of
           aborts m \<Rightarrow> None
         | returns (sent, r) \<Rightarrow>
             Some (sys\<lparr>waiting := take i (waiting sys) @ drop (Suc i) (waiting sys),
                       responses := Suc (responses sys),
                       delivered := delivered sys @ sent\<rparr>))
      else None)"

text \<open>
  A schedule says which actor handles its next message; an event that is not enabled
  makes the schedule invalid.
\<close>

datatype event = partition_runs nat | supervisor_runs

fun exec :: "event list \<Rightarrow> sv_system \<Rightarrow> sv_system option" where
  "exec [] sys = Some sys"
| "exec (partition_runs i # evs) sys =
     (case partition_handles_query i sys of None \<Rightarrow> None | Some sys' \<Rightarrow> exec evs sys')"
| "exec (supervisor_runs # evs) sys =
     (case supervisor_handles_done sys of None \<Rightarrow> None | Some sys' \<Rightarrow> exec evs sys')"

definition quiescent :: "sv_system \<Rightarrow> bool" where
  "quiescent sys = (waiting sys = [] \<and> responses sys = 0)"


section \<open>Auxiliary notions for the properties of handle_lookup\<close>

text \<open>
  The slices of a list come in ascending id order, none starting below \<open>lo\<close>;
  \<open>tiled\<close> asks in addition that no slice is empty and that none ends above \<open>hi\<close>.
\<close>

fun ascending_from :: "nat \<Rightarrow> table_slice list \<Rightarrow> bool" where
  "ascending_from lo [] = True"
| "ascending_from lo (s # ss) =
     (lo \<le> slice_offset s \<and> ascending_from (slice_offset s + length (slice_rows s)) ss)"

fun tiled :: "nat \<Rightarrow> nat \<Rightarrow> table_slice list \<Rightarrow> bool" where
  "tiled lo hi [] = (lo \<le> hi)"
| "tiled lo hi (s # ss) =
     (lo \<le> slice_offset s \<and> slice_rows s \<noteq> []
      \<and> tiled (slice_offset s + length (slice_rows s)) hi ss)"

text \<open>The slices forwarded to a sink, as effects.\<close>

definition forward :: "actor \<Rightarrow> table_slice list \<Rightarrow> effect list" where
  "forward sink outs = map (\<lambda>t. send sink (slice_result t)) outs"

text \<open>
  What the \<open>preserve_ids\<close> branch keeps of one sub-slice, and of a list of slices
  with their checkers; what the \<open>drop_ids\<close> branch keeps of one slice.
\<close>

definition kept_of :: "expr_ops \<Rightarrow> query \<Rightarrow> expression \<Rightarrow> table_slice \<Rightarrow> table_slice list" where
  "kept_of ops q c sub =
     (if expr q = no_expression then [sub] else select sub (evaluate ops c sub))"

definition preserved ::
  "expr_ops \<Rightarrow> query \<Rightarrow> ids \<Rightarrow> (table_slice \<times> expression) list \<Rightarrow> table_slice list" where
  "preserved ops q xs ps = concat (map (\<lambda>(sl, c). concat (map (kept_of ops q c) (select sl xs))) ps)"

definition filtered_of :: "expr_ops \<Rightarrow> ids \<Rightarrow> table_slice \<times> expression \<Rightarrow> table_slice list" where
  "filtered_of ops xs p = (case filter_slice ops (fst p) (snd p) xs of None \<Rightarrow> [] | Some t \<Rightarrow> [t])"


section \<open>Auxiliary notions for the properties of the stores and of the supervisor\<close>



text \<open>
  What holds of the system while \<open>n\<close> partitions holding \<open>tot\<close> records are
  supervised: the counts \<open>cs\<close> delivered so far, the partitions still waiting.
\<close>

definition sv_inv :: "actor \<Rightarrow> actor \<Rightarrow> actor \<Rightarrow> query \<Rightarrow> nat \<Rightarrow> nat \<Rightarrow> nat list \<Rightarrow> sv_system \<Rightarrow> bool" where
  "sv_inv self master client q n tot cs sys =
     (sv_self sys = self \<and> sv_master sys = master \<and> sv_client sys = client \<and> sv_query sys = q
      \<and> open_requests sys = length (waiting sys) + responses sys
      \<and> length cs + length (waiting sys) = n
      \<and> sum_list cs + sum_list (map card (waiting sys)) = tot
      \<and> delivered sys =
          (master, worker_msg self) # map (\<lambda>c. (client, count_msg c)) cs
          @ (if open_requests sys = 0 then [(client, done_msg), (master, worker_msg self)] else []))"


section \<open>Concrete data for the examples\<close>

definition conn :: layout where
  "conn = \<lparr>layout_name = ''conn'', layout_fields = [''x'']\<rparr>"

definition slice_a :: table_slice where
  "slice_a = \<lparr>slice_layout = conn, slice_offset = 10, slice_rows = [ [1], [42], [3], [42] ]\<rparr>"

definition slice_b :: table_slice where
  "slice_b = \<lparr>slice_layout = conn, slice_offset = 20, slice_rows = [ [5], [42] ]\<rparr>"

definition example_segment :: segment where
  "example_segment = \<lparr>segment_id = 7, segment_slices = [slice_a, slice_b]\<rparr>"

text \<open>
  An expression library for the examples: tailoring fails on a field the layout
  does not have; a record is a hit if the expression holds of its fields.
\<close>

fun fields_known :: "expression \<Rightarrow> layout \<Rightarrow> bool" where
  "fields_known no_expression l = True"
| "fields_known (field_equals f v) l = (f \<in> set (layout_fields l))"
| "fields_known (type_is t) l = True"
| "fields_known (negation e) l = fields_known e l"
| "fields_known (conjunction a b) l = (fields_known a l \<and> fields_known b l)"
| "fields_known (disjunction a b) l = (fields_known a l \<or> fields_known b l)"

fun holds :: "expression \<Rightarrow> (string \<times> int) list \<Rightarrow> bool" where
  "holds no_expression r = True"
| "holds (field_equals f v) r = (map_of r f = Some v)"
| "holds (type_is t) r = True"
| "holds (negation e) r = (\<not> holds e r)"
| "holds (conjunction a b) r = (holds a r \<and> holds b r)"
| "holds (disjunction a b) r = (holds a r \<or> holds b r)"

definition example_ops :: expr_ops where
  "example_ops =
     \<lparr>tailor = (\<lambda>e l. if fields_known e l then Inr e
                       else Inl (Error invalid_query ''unknown field'')),
      prune_meta_predicates = (\<lambda>e. e),
      evaluate = (\<lambda>e s. fst ` set (filter (\<lambda>(i, r). holds e (zip (layout_fields (slice_layout s)) r))
                                    (slice_records s)))\<rparr>"

definition extract_x42 :: "extract_policy \<Rightarrow> query" where
  "extract_x42 policy = \<lparr>cmd = extract_cmd 3 policy, expr = field_equals ''x'' 42\<rparr>"

definition count_unknown :: query where
  "count_unknown = \<lparr>cmd = count_cmd 3 estimate, expr = field_equals ''y'' 1\<rparr>"

definition count_all :: "count_mode \<Rightarrow> query" where
  "count_all mode = \<lparr>cmd = count_cmd 3 mode, expr = no_expression\<rparr>"


text \<open>
  A passive store as the program builds it: spawned for the segment file
  \<open>archive/7.store\<close> with the filesystem actor 9; then with one request deferred;
  then with the segment of the file loaded.
\<close>

definition store_path :: path where
  "store_path = \<lparr>parent_path = ''archive'', stem = ''7'', extension = ''store''\<rparr>"

definition spawned_store :: passive_store_state where
  "spawned_store = fst (passive_local_store_spawn 9 store_path)"

definition loading_store :: passive_store_state where
  "loading_store = spawned_store\<lparr>deferred_requests := [(count_all exact, UNIV, None)]\<rparr>"

definition loaded_store :: passive_store_state where
  "loaded_store = spawned_store\<lparr>segment := Some example_segment\<rparr>"

definition example_disk :: filesystem where
  "example_disk = \<lparr>files = [store_path \<mapsto> segment_chunk example_segment], rename_fails = False\<rparr>"




text \<open>A segment as it may come from a file: two slices with conflicting layouts.\<close>

definition conflicting_segment :: segment where
  "conflicting_segment =
     \<lparr>segment_id = 8,
      segment_slices =
        [slice_a,
         \<lparr>slice_layout = \<lparr>layout_name = ''conn'', layout_fields = [''x'', ''y'']\<rparr>,
          slice_offset = 30, slice_rows = [ [1, 2] ]\<rparr>]\<rparr>"

definition conflicting_store :: passive_store_state where
  "conflicting_store = spawned_store\<lparr>segment := Some conflicting_segment\<rparr>"

text \<open>
  The scenario of TEST(lookup): the test actor (1) is master and client of the
  supervisor (2); three partitions hold the ids 0 2 4 6 8, 1 7 and 3 5.
\<close>

definition test_query :: query where
  "test_query = \<lparr>cmd = count_cmd 1 estimate, expr = field_equals ''x'' 42\<rparr>"

definition test_partitions :: "ids list" where
  "test_partitions = [{0, 2, 4, 6, 8}, {1, 7}, {3, 5}]"

definition test_schedule :: "event list" where
  "test_schedule =
     [partition_runs 1, supervisor_runs, partition_runs 0, partition_runs 0,
      supervisor_runs, supervisor_runs]"


section \<open>Properties of the zig-zag coding\<close>

lemma sign_fill:
  "signed_drop_bit (LENGTH('a) - 1) (x::'a::len word) = (if bit x (LENGTH('a) - 1) then - 1 else 0)"
  by (rule bit_word_eqI) (auto simp add: bit_signed_drop_bit_iff not_le)

lemma bit_twice:
  "bit ((x::'a::len word) * 2) n \<longleftrightarrow> 0 < n \<and> n < LENGTH('a) \<and> bit x (n - 1)"
proof -
  have "x * 2 = 2 * x" by simp
  then show ?thesis by (simp only: bit_double_iff possible_bit_word) auto
qed

lemma encode_low_bit:
  "encode (x::'a::len word) AND 1 = (if bit x (LENGTH('a) - 1) then 1 else 0)"
  unfolding encode_def sign_fill
  by (rule bit_word_eqI) (auto simp add: bit_and_iff bit_xor_iff bit_twice bit_1_iff)

lemma encode_neg: "bit x (LENGTH('a) - 1) \<Longrightarrow> encode (x::'a::len word) = NOT (x * 2)"
  unfolding encode_def sign_fill by (simp add: bit.xor_one_right)

lemma encode_pos: "\<not> bit x (LENGTH('a) - 1) \<Longrightarrow> encode (x::'a::len word) = x * 2"
  unfolding encode_def sign_fill by simp

lemma decode_encode: "decode (encode (x::'a::len word)) = x"
proof (cases "bit x (LENGTH('a) - 1)")
  case True
  have "decode (encode x) = drop_bit 1 (encode x) XOR (- 1)"
    unfolding decode_def encode_low_bit using True by simp
  also have "\<dots> = NOT (drop_bit 1 (NOT (x * 2)))"
    by (simp add: encode_neg [OF True] bit.xor_one_right)
  also have "\<dots> = x"
  proof (rule bit_word_eqI)
    fix n assume n: "n < LENGTH('a)"
    show "bit (NOT (drop_bit 1 (NOT (x * 2)))) n = bit x n"
    proof (cases "Suc n < LENGTH('a)")
      case True
      then show ?thesis using n
        by (simp add: bit_not_iff bit_drop_bit_eq bit_twice)
    next
      case False
      with n have "n = LENGTH('a) - 1" by simp
      then show ?thesis using \<open>bit x (LENGTH('a) - 1)\<close> n
        by (simp add: bit_not_iff bit_drop_bit_eq bit_twice)
    qed
  qed
  finally show ?thesis .
next
  case False
  have "decode (encode x) = drop_bit 1 (encode x)"
    unfolding decode_def encode_low_bit using False by simp
  also have "\<dots> = drop_bit 1 (x * 2)"
    by (simp add: encode_pos [OF False])
  also have "\<dots> = x"
  proof (rule bit_word_eqI)
    fix n assume n: "n < LENGTH('a)"
    show "bit (drop_bit 1 (x * 2)) n = bit x n"
    proof (cases "Suc n < LENGTH('a)")
      case True
      then show ?thesis using n
        by (simp add: bit_drop_bit_eq bit_twice)
    next
      case False
      with n have "n = LENGTH('a) - 1" by simp
      then show ?thesis using \<open>\<not> bit x (LENGTH('a) - 1)\<close> n
        by (simp add: bit_drop_bit_eq bit_twice)
    qed
  qed
  finally show ?thesis .
qed

lemma sint_nonneg_iff: "0 \<le> sint (x::'a::len word) \<longleftrightarrow> \<not> bit x (LENGTH('a) - 1)"
  using bit_last_iff [of x] by force

lemma encode_as_int:
  "encode (x::'a::len word) = word_of_int (if 0 \<le> sint x then 2 * sint x else - 2 * sint x - 1)"
proof (cases "bit x (LENGTH('a) - 1)")
  case True
  have "NOT (x * 2) = - (x * 2) - 1" by (simp add: not_eq_complement)
  also have "\<dots> = word_of_int (- 2 * sint x - 1)" by simp
  finally show ?thesis using True by (simp add: encode_neg sint_nonneg_iff)
next
  case False
  have "x * 2 = word_of_int (2 * sint x)" by simp
  then show ?thesis using False by (simp add: encode_pos sint_nonneg_iff)
qed

lemma two_half: "(2::int) * 2 ^ (LENGTH('a::len) - 1) = 2 ^ LENGTH('a)"
  by (metis One_nat_def Suc_pred' len_gt_0 power_Suc)

lemma encode_value:
  "uint (encode (x::'a::len word)) = (if 0 \<le> sint x then 2 * sint x else - 2 * sint x - 1)"
proof -
  let ?k = "if 0 \<le> sint x then 2 * sint x else - 2 * sint x - 1"
  have lo: "0 \<le> ?k" by simp
  have hi: "?k < 2 ^ LENGTH('a)"
    using sint_lt [of x] sint_ge [of x] two_half [where 'a='a] by (auto split: if_splits)
  have "uint (encode x) = ?k mod 2 ^ LENGTH('a)"
    by (simp only: encode_as_int uint_word_of_int)
  also have "\<dots> = ?k" using lo hi by (simp only: mod_pos_pos_trivial)
  finally show ?thesis .
qed

text \<open>
  Claim C10. Decoding the zig-zag encoding of a value gives the value back, at every
  width. The encoding of a value \<open>x\<close> read as signed is \<open>2 * x\<close> for \<open>x\<close> from 0 up and
  \<open>- 2 * x - 1\<close> for negative \<open>x\<close>; so 0, -1, 1, -2, 2 are encoded as 0, 1, 2, 3, 4,
  shown here for 64-bit and for 8-bit integers.
\<close>

theorem zigzag_roundtrip:
  "decode (encode (x::'a::len word)) = x
   \<and> uint (encode x) = (if 0 \<le> sint x then 2 * sint x else - 2 * sint x - 1)
   \<and> encode (0 :: 64 word) = 0 \<and> encode (- 1 :: 64 word) = 1 \<and> encode (1 :: 64 word) = 2
   \<and> encode (- 2 :: 64 word) = 3 \<and> encode (2 :: 64 word) = 4
   \<and> encode (0 :: 8 word) = 0 \<and> encode (- 1 :: 8 word) = 1 \<and> encode (1 :: 8 word) = 2
   \<and> encode (- 2 :: 8 word) = 3 \<and> encode (2 :: 8 word) = 4"
  by (simp add: decode_encode encode_value) (simp add: encode_def)

theorem zigzag_roundtrip_witness:
  "decode (encode (- 128 :: 8 word)) = - 128 \<and> uint (encode (- 128 :: 8 word)) = 255"
  using zigzag_roundtrip [of "- 128 :: 8 word"] by simp


section \<open>Properties of segments and of the segment builder\<close>

lemma numbered_Nil: "numbered off [] = []"
  by (simp add: numbered_def)

lemma numbered_Cons: "numbered off (r # rs) = (off, r) # numbered (Suc off) rs"
proof -
  have "[off ..< off + length (r # rs)] = off # [Suc off ..< Suc off + length rs]"
    by (simp add: upt_conv_Cons del: upt_Suc)
  then show ?thesis by (simp add: numbered_def del: upt_Suc)
qed

lemma select_rows_records:
  "concat (map (\<lambda>(off', rs'). numbered off' rs') (select_rows off rs xs))
     = filter (\<lambda>(i, r). i \<in> xs) (numbered off rs)"
proof (induction rs arbitrary: off)
  case Nil
  then show ?case by (simp add: numbered_Nil)
next
  case (Cons r rs)
  show ?case
  proof (cases "off \<in> xs")
    case False
    then show ?thesis using Cons.IH [of "Suc off"]
      by (simp add: numbered_Cons)
  next
    case True
    show ?thesis
    proof (cases "select_rows (Suc off) rs xs")
      case Nil
      then show ?thesis using True Cons.IH [of "Suc off"]
        by (simp add: numbered_Cons numbered_Nil)
    next
      case (Cons p rest)
      obtain off' rs' where p: "p = (off', rs')" by (cases p)
      show ?thesis using True Cons.IH [of "Suc off"] Cons p
        by (auto simp add: numbered_Cons numbered_Nil)
    qed
  qed
qed

lemma select_records:
  "concat (map slice_records (select s xs)) = filter (\<lambda>(i, r). i \<in> xs) (slice_records s)"
  using select_rows_records [of "slice_offset s" "slice_rows s" xs]
  by (simp add: select_def slice_records_def comp_def case_prod_unfold)

lemma select_layout: "t \<in> set (select s xs) \<Longrightarrow> slice_layout t = slice_layout s"
  by (auto simp add: select_def)

lemma erase_records:
  "concat (map slice_records (concat (map (\<lambda>s. select s xs) ss)))
     = filter (\<lambda>(i, r). i \<in> xs) (concat (map slice_records ss))"
  by (induction ss) (simp_all add: select_records)

lemma erase_layouts:
  assumes "t \<in> set (concat (map (\<lambda>s. select s xs) ss))"
  shows "\<exists>s \<in> set ss. slice_layout t = slice_layout s"
proof -
  from assms obtain s where "s \<in> set ss" and "t \<in> set (select s xs)" by auto
  then show ?thesis using select_layout [of t s xs] by blast
qed

lemma layouts_agree_iff:
  "layouts_agree ss \<longleftrightarrow>
     (\<forall>s \<in> set ss. \<forall>t \<in> set ss. \<not> layout_conflict (slice_layout t) (slice_layout s))"
  by (simp add: layouts_agree_def list_all_iff)

lemma layouts_agree_erase:
  assumes "layouts_agree ss"
  shows "layouts_agree (concat (map (\<lambda>s. select s xs) ss))"
  unfolding layouts_agree_iff
proof (intro ballI)
  fix s t
  assume "s \<in> set (concat (map (\<lambda>s. select s xs) ss))"
    and "t \<in> set (concat (map (\<lambda>s. select s xs) ss))"
  then obtain s0 t0 where s0: "s0 \<in> set ss" "slice_layout s = slice_layout s0"
    and t0: "t0 \<in> set ss" "slice_layout t = slice_layout t0"
    using erase_layouts by meson
  from assms s0(1) t0(1) have "\<not> layout_conflict (slice_layout t0) (slice_layout s0)"
    unfolding layouts_agree_iff by blast
  then show "\<not> layout_conflict (slice_layout t) (slice_layout s)"
    using s0(2) t0(2) by simp
qed

lemma layouts_agree_append1:
  "layouts_agree (ss @ s # ts) \<Longrightarrow> layouts_agree (ss @ [s])"
  unfolding layouts_agree_iff by simp

lemma builder_add_ok:
  assumes "usable b" and "layouts_agree (builder_slices b @ [s])"
  shows "builder_add b s = Inr (b\<lparr>builder_slices := builder_slices b @ [s]\<rparr>)"
proof -
  have "\<not> list_ex (\<lambda>t. layout_conflict (slice_layout t) (slice_layout s)) (builder_slices b)"
    using assms(2) unfolding layouts_agree_iff list_ex_iff by simp
  then show ?thesis using assms(1) by (simp add: builder_add_def)
qed

lemma builder_add_all_ok:
  "usable b \<Longrightarrow> layouts_agree (builder_slices b @ ss) \<Longrightarrow>
     builder_add_all b ss = Inr (b\<lparr>builder_slices := builder_slices b @ ss\<rparr>)"
proof (induction ss arbitrary: b)
  case Nil
  then show ?case by simp
next
  case (Cons s ss)
  have agree: "layouts_agree (builder_slices b @ [s])"
    using Cons.prems(2) by (rule layouts_agree_append1)
  have step: "builder_add b s = Inr (b\<lparr>builder_slices := builder_slices b @ [s]\<rparr>)"
    using Cons.prems(1) agree by (rule builder_add_ok)
  show ?case using Cons.IH [of "b\<lparr>builder_slices := builder_slices b @ [s]\<rparr>"] Cons.prems step
    by simp
qed

lemma replay_ok:
  "usable b \<Longrightarrow> layouts_agree (builder_slices b @ ss) \<Longrightarrow>
     replay b ss = b\<lparr>builder_slices := builder_slices b @ ss\<rparr>"
proof (induction ss arbitrary: b)
  case Nil
  then show ?case by simp
next
  case (Cons s ss)
  have agree: "layouts_agree (builder_slices b @ [s])"
    using Cons.prems(2) by (rule layouts_agree_append1)
  have step: "builder_add b s = Inr (b\<lparr>builder_slices := builder_slices b @ [s]\<rparr>)"
    using Cons.prems(1) agree by (rule builder_add_ok)
  show ?case using Cons.IH [of "b\<lparr>builder_slices := builder_slices b @ [s]\<rparr>"] Cons.prems step
    by simp
qed

lemma builder_add_all_slices:
  "builder_add_all b ss = Inr b' \<Longrightarrow>
     builder_slices b' = builder_slices b @ ss \<and> builder_id b' = builder_id b"
proof (induction ss arbitrary: b)
  case Nil
  then show ?case by simp
next
  case (Cons s ss)
  then show ?case
    by (auto simp add: builder_add_def split: sum.splits if_splits)
qed

lemma layout_conflict_sym: "layout_conflict a b \<Longrightarrow> layout_conflict b a"
  unfolding layout_conflict_def by metis

lemma layout_conflict_irrefl: "\<not> layout_conflict a a"
  unfolding layout_conflict_def by simp

lemma builder_add_agree:
  assumes "layouts_agree (builder_slices b)" and "builder_add b s = Inr b'"
  shows "layouts_agree (builder_slices b')"
proof -
  from assms(2) have b': "builder_slices b' = builder_slices b @ [s]"
    and free: "\<not> list_ex (\<lambda>t. layout_conflict (slice_layout t) (slice_layout s)) (builder_slices b)"
    by (auto simp add: builder_add_def split: if_splits)
  from free have new_old: "\<forall>t \<in> set (builder_slices b). \<not> layout_conflict (slice_layout t) (slice_layout s)"
    unfolding list_ex_iff by simp
  then have old_new: "\<forall>t \<in> set (builder_slices b). \<not> layout_conflict (slice_layout s) (slice_layout t)"
    using layout_conflict_sym by blast
  show ?thesis
    unfolding b' layouts_agree_iff
    using assms(1) new_old old_new layout_conflict_irrefl [of "slice_layout s"]
    unfolding layouts_agree_iff by auto
qed

lemma segment_ids_alt: "segment_ids seg = fst ` set (concat (map slice_records (segment_slices seg)))"
  by (simp add: segment_ids_def segment_records_def)

lemma copy_without_result:
  assumes "copy_without s xs = Inr s'"
  shows "segment_id s' = segment_id s"
    and "segment_records s' = filter (\<lambda>(i, r). i \<notin> xs) (segment_records s)"
proof -
  from assms obtain b where
    b: "builder_add_all \<lparr>builder_id = segment_id s, builder_slices = [], usable = True\<rparr>
          (concat (map (\<lambda>t. select t (- xs)) (segment_slices s))) = Inr b"
    and s': "s' = fst (builder_finish b)"
    by (auto simp add: copy_without_def segment_erase_def split: sum.splits)
  from builder_add_all_slices [OF b]
  have sl: "builder_slices b = concat (map (\<lambda>t. select t (- xs)) (segment_slices s))"
    and bid: "builder_id b = segment_id s" by simp_all
  show "segment_id s' = segment_id s" using s' bid by (simp add: builder_finish_def)
  have "segment_records s' = filter (\<lambda>(i, r). i \<in> - xs) (segment_records s)"
    using s' sl by (simp add: builder_finish_def segment_records_def erase_records)
  then show "segment_records s' = filter (\<lambda>(i, r). i \<notin> xs) (segment_records s)" by simp
qed

lemma copy_without_succeeds:
  assumes "layouts_agree (segment_slices s)"
  shows "\<exists>s'. copy_without s xs = Inr s'"
proof -
  let ?b = "\<lparr>builder_id = segment_id s, builder_slices = [], usable = True\<rparr>"
  have "layouts_agree (builder_slices ?b @ concat (map (\<lambda>t. select t (- xs)) (segment_slices s)))"
    using layouts_agree_erase [OF assms] by simp
  then have "builder_add_all ?b (concat (map (\<lambda>t. select t (- xs)) (segment_slices s)))
      = Inr (?b\<lparr>builder_slices := builder_slices ?b @ concat (map (\<lambda>t. select t (- xs)) (segment_slices s))\<rparr>)"
    by (intro builder_add_all_ok) simp_all
  then show ?thesis by (simp add: copy_without_def segment_erase_def)
qed

text \<open>
  Claim C6. Whenever \<open>copy_without\<close> returns a segment for a segment \<open>s\<close> and an
  id set \<open>xs\<close>, the record ids of that segment are those of \<open>s\<close> minus \<open>xs\<close> (its
  records are those of \<open>s\<close> whose id is not in \<open>xs\<close>, in the same order) and its UUID
  is that of \<open>s\<close>; and it does return a segment for every segment whose slices
  carry no conflicting layouts, as every segment that came out of a builder does.
\<close>

theorem copy_without_ids:
  "(\<forall>s'. copy_without s xs = Inr s' \<longrightarrow>
      segment_ids s' = segment_ids s - xs \<and> segment_id s' = segment_id s
      \<and> segment_records s' = filter (\<lambda>(i, r). i \<notin> xs) (segment_records s))
   \<and> (layouts_agree (segment_slices s) \<longrightarrow> (\<exists>s'. copy_without s xs = Inr s'))"
proof (intro conjI allI impI)
  fix s' assume a: "copy_without s xs = Inr s'"
  show "segment_id s' = segment_id s" by (rule copy_without_result(1) [OF a])
  show r: "segment_records s' = filter (\<lambda>(i, r). i \<notin> xs) (segment_records s)"
    by (rule copy_without_result(2) [OF a])
  show "segment_ids s' = segment_ids s - xs"
    unfolding segment_ids_def r by force
next
  assume "layouts_agree (segment_slices s)"
  then show "\<exists>s'. copy_without s xs = Inr s'" by (rule copy_without_succeeds)
qed

lemma example_layouts:
  "slice_layout slice_a = conn" "slice_layout slice_b = conn"
  by (simp_all add: slice_a_def slice_b_def)

lemma example_segment_agree: "layouts_agree (segment_slices example_segment)"
  by (simp add: example_segment_def layouts_agree_def example_layouts layout_conflict_irrefl)

lemma example_segment_ids: "segment_ids example_segment = {10, 11, 12, 13, 20, 21}"
  by (simp add: segment_ids_def segment_records_def example_segment_def slice_a_def slice_b_def
      slice_records_def numbered_def) 

theorem copy_without_ids_witness:
  "layouts_agree (segment_slices example_segment)
   \<and> (\<exists>s'. copy_without example_segment {11, 20, 99} = Inr s'
        \<and> segment_ids s' = {10, 12, 13, 21} \<and> segment_id s' = 7)"
proof -
  from copy_without_ids [of example_segment "{11, 20, 99}"] example_segment_agree
  obtain s' where s': "copy_without example_segment {11, 20, 99} = Inr s'"
    and ids: "segment_ids s' = segment_ids example_segment - {11, 20, 99}"
    and id: "segment_id s' = segment_id example_segment"
    by blast
  have "segment_ids example_segment - {11, 20, 99} = {10, 12, 13, 21}"
    unfolding example_segment_ids by auto
  with s' ids id example_segment_agree show ?thesis
    by (simp add: example_segment_def)
qed

text \<open>
  Claim C8. The erase handler of the active store seals the builder into a segment,
  erases the ids from it, resets the builder to the segment's UUID and replays the
  surviving slices. For a builder whose slices carry no conflicting layouts (which
  \<open>add\<close> maintains), the handler answers \<open>done\<close>, and afterwards the builder is usable,
  has the same UUID and holds exactly the records of the builder before whose ids are
  not erased, in the same order.
\<close>

theorem active_erase_replays:
  assumes "layouts_agree (builder_slices (builder st))"
  shows "\<exists>st'. active_erase st xs rp = continue st' [deliver rp done_v]
           \<and> builder_id (builder st') = builder_id (builder st)
           \<and> usable (builder st')
           \<and> builder_records (builder st') = filter (\<lambda>(i, r). i \<notin> xs) (builder_records (builder st))"
proof -
  let ?b = "builder st"
  let ?ss = "concat (map (\<lambda>t. select t (- xs)) (builder_slices ?b))"
  let ?r = "\<lparr>builder_id = builder_id ?b, builder_slices = [], usable = True\<rparr>"
  have agree: "layouts_agree (builder_slices ?r @ ?ss)"
    using layouts_agree_erase [OF assms] by simp
  have rep: "replay ?r ?ss = ?r\<lparr>builder_slices := builder_slices ?r @ ?ss\<rparr>"
    by (rule replay_ok [OF _ agree]) simp
  have step: "active_erase st xs rp = continue (st\<lparr>builder := replay ?r ?ss\<rparr>) [deliver rp done_v]"
    by (simp add: active_erase_def builder_finish_def segment_erase_def builder_reset_def)
  have recs: "builder_records (replay ?r ?ss) = filter (\<lambda>(i, r). i \<in> - xs) (builder_records ?b)"
    unfolding rep by (simp add: builder_records_def erase_records)
  show ?thesis
    using step recs rep by simp
qed

theorem active_erase_replays_witness:
  "layouts_agree [slice_a, slice_b]
   \<and> (\<exists>st'. active_erase \<lparr>builder = \<lparr>builder_id = 7, builder_slices = [slice_a, slice_b], usable = True\<rparr>\<rparr> {11, 20} 5
              = continue st' [deliver 5 done_v]
        \<and> builder_id (builder st') = 7
        \<and> builder_records (builder st') = [(10, [1]), (12, [3]), (13, [42]), (21, [42])])"
proof -
  have a: "layouts_agree [slice_a, slice_b]"
    by (simp add: layouts_agree_def example_layouts layout_conflict_irrefl)
  have b: "filter (\<lambda>(i, r). i \<notin> {11, 20::nat})
             (builder_records \<lparr>builder_id = 7, builder_slices = [slice_a, slice_b], usable = True\<rparr>)
           = [(10, [1]), (12, [3]), (13, [42]), (21, [42])]"
    by (simp add: builder_records_def slice_a_def slice_b_def slice_records_def numbered_def)
  from active_erase_replays [of "\<lparr>builder = \<lparr>builder_id = 7, builder_slices = [slice_a, slice_b], usable = True\<rparr>\<rparr>" "{11, 20}" 5] a
  obtain st' where
    "active_erase \<lparr>builder = \<lparr>builder_id = 7, builder_slices = [slice_a, slice_b], usable = True\<rparr>\<rparr> {11, 20} 5
       = continue st' [deliver 5 done_v]"
    "builder_id (builder st') = 7"
    "builder_records (builder st') = filter (\<lambda>(i, r). i \<notin> {11, 20::nat})
       (builder_records \<lparr>builder_id = 7, builder_slices = [slice_a, slice_b], usable = True\<rparr>)"
    by auto
  with a b show ?thesis by auto
qed

section \<open>Properties of handle_lookup\<close>

lemma tiled_mono: "tiled lo hi ss \<Longrightarrow> lo' \<le> lo \<Longrightarrow> hi \<le> hi' \<Longrightarrow> tiled lo' hi' ss"
  by (induction ss arbitrary: lo lo') auto

lemma tiled_append: "tiled lo mid ss \<Longrightarrow> tiled mid hi ts \<Longrightarrow> tiled lo hi (ss @ ts)"
proof (induction ss arbitrary: lo)
  case Nil
  then show ?case using tiled_mono [of mid hi ts lo hi] by simp
next
  case (Cons s ss)
  then show ?case by simp
qed

lemma tiled_nonempty: "tiled lo hi ss \<Longrightarrow> t \<in> set ss \<Longrightarrow> slice_rows t \<noteq> []"
  by (induction ss arbitrary: lo) auto

lemma tiled_bounds: "tiled lo hi ss \<Longrightarrow> lo \<le> hi"
proof (induction ss arbitrary: lo)
  case Nil
  then show ?case by simp
next
  case (Cons s ss)
  from Cons.prems have "lo \<le> slice_offset s"
    and "tiled (slice_offset s + length (slice_rows s)) hi ss" by simp_all
  with Cons.IH [of "slice_offset s + length (slice_rows s)"] show ?case by simp
qed

lemma ascending_from_mono: "ascending_from lo ss \<Longrightarrow> lo' \<le> lo \<Longrightarrow> ascending_from lo' ss"
  by (cases ss) auto

lemma tiled_then_ascending:
  "tiled lo mid ss \<Longrightarrow> ascending_from mid ts \<Longrightarrow> ascending_from lo (ss @ ts)"
proof (induction ss arbitrary: lo)
  case Nil
  then show ?case using ascending_from_mono [of mid ts lo] by simp
next
  case (Cons s ss)
  then show ?case by simp
qed

lemma tiled_concat_map:
  assumes "tiled lo hi ss"
    and "\<And>s. s \<in> set ss \<Longrightarrow> tiled (slice_offset s) (slice_offset s + length (slice_rows s)) (f s)"
  shows "tiled lo hi (concat (map f ss))"
  using assms
proof (induction ss arbitrary: lo)
  case Nil
  then show ?case by simp
next
  case (Cons s ss)
  from Cons.prems(1) have lo: "lo \<le> slice_offset s"
    and rest: "tiled (slice_offset s + length (slice_rows s)) hi ss" by simp_all
  have here: "tiled (slice_offset s) (slice_offset s + length (slice_rows s)) (f s)"
    using Cons.prems(2) by simp
  have "tiled (slice_offset s + length (slice_rows s)) hi (concat (map f ss))"
    using Cons.IH [OF rest] Cons.prems(2) by simp
  with here have "tiled (slice_offset s) hi (f s @ concat (map f ss))"
    by (rule tiled_append)
  then show ?case using lo tiled_mono [of "slice_offset s" hi _ lo hi] by simp
qed

lemma select_rows_tiled:
  "tiled off (off + length rs)
     (map (\<lambda>(off', rs'). \<lparr>slice_layout = l, slice_offset = off', slice_rows = rs'\<rparr>)
        (select_rows off rs xs))"
proof (induction rs arbitrary: off)
  case Nil
  then show ?case by simp
next
  case (Cons r rs)
  let ?mk = "\<lambda>(off', rs'). \<lparr>slice_layout = l, slice_offset = off', slice_rows = rs'\<rparr>"
  have ih: "tiled (Suc off) (Suc off + length rs) (map ?mk (select_rows (Suc off) rs xs))"
    by (rule Cons.IH)
  show ?case
  proof (cases "off \<in> xs")
    case False
    then show ?thesis using tiled_mono [OF ih, of off "off + length (r # rs)"] by simp
  next
    case True
    show ?thesis
    proof (cases "select_rows (Suc off) rs xs")
      case Nil
      then show ?thesis using True by simp
    next
      case (Cons p rest)
      obtain off' rs' where p: "p = (off', rs')" by (cases p)
      show ?thesis using True ih Cons p by auto
    qed
  qed
qed

lemma select_tiled:
  "tiled (slice_offset s) (slice_offset s + length (slice_rows s)) (select s xs)"
  unfolding select_def by (rule select_rows_tiled)

lemma make_checkers_length:
  "make_checkers ops q sls = Inr cs \<Longrightarrow> length cs = length sls"
proof (induction sls arbitrary: cs)
  case Nil
  then show ?case by simp
next
  case (Cons sl sls)
  then show ?case by (auto split: if_splits sum.splits)
qed

lemma forward_append: "forward sink (a @ b) = forward sink a @ forward sink b"
  by (simp add: forward_def)

lemma forward_concat: "concat (map (\<lambda>s. forward sink (f s)) ss) = forward sink (concat (map f ss))"
  by (induction ss) (simp_all add: forward_def)

lemma forward_inj: "forward sink a = forward sink b \<Longrightarrow> a = b"
  unfolding forward_def by (induction a arbitrary: b) auto

lemma extract_slice_preserve:
  "extract_slice ops q sink preserve_ids xs sl c
     = forward sink (concat (map (kept_of ops q c) (select sl xs)))"
proof -
  have "extract_slice ops q sink preserve_ids xs sl c
      = concat (map (\<lambda>sub. forward sink (kept_of ops q c sub)) (select sl xs))"
    by (cases "expr q = no_expression") (simp_all add: extract_slice_def forward_def kept_of_def)
  then show ?thesis by (simp only: forward_concat)
qed

lemma kept_of_tiled:
  assumes "slice_rows sub \<noteq> []"
  shows "tiled (slice_offset sub) (slice_offset sub + length (slice_rows sub)) (kept_of ops q c sub)"
  using assms select_tiled [of sub "evaluate ops c sub"] by (simp add: kept_of_def)

lemma kept_of_records:
  "concat (map slice_records (kept_of ops q c sub))
     = filter (\<lambda>(i, r). expr q = no_expression \<or> i \<in> evaluate ops c sub) (slice_records sub)"
  by (simp add: kept_of_def select_records)

lemma preserved_tiled:
  "tiled (slice_offset sl) (slice_offset sl + length (slice_rows sl))
     (concat (map (kept_of ops q c) (select sl xs)))"
proof (rule tiled_concat_map [OF select_tiled])
  fix s assume "s \<in> set (select sl xs)"
  then have "slice_rows s \<noteq> []" using tiled_nonempty [OF select_tiled] by blast
  then show "tiled (slice_offset s) (slice_offset s + length (slice_rows s)) (kept_of ops q c s)"
    by (rule kept_of_tiled)
qed

lemma concat_records_concat:
  "concat (map slice_records (concat (map f ss))) = concat (map (\<lambda>s. concat (map slice_records (f s))) ss)"
  by (induction ss) simp_all

lemma preserved_records:
  "concat (map slice_records (concat (map (kept_of ops q c) (select sl xs))))
     = concat (map (\<lambda>sub. filter (\<lambda>(i, r). expr q = no_expression \<or> i \<in> evaluate ops c sub)
                              (slice_records sub)) (select sl xs))"
  by (simp only: concat_records_concat kept_of_records)

lemma preserved_Nil: "preserved ops q xs [] = []"
  by (simp add: preserved_def)

lemma preserved_Cons:
  "preserved ops q xs ((sl, c) # ps) = concat (map (kept_of ops q c) (select sl xs)) @ preserved ops q xs ps"
  by (simp add: preserved_def)

lemma preserve_all_effects:
  "concat (map (\<lambda>(sl, c). extract_slice ops q sink preserve_ids xs sl c) ps)
     = forward sink (preserved ops q xs ps)"
proof (induction ps)
  case Nil
  then show ?case by (simp add: preserved_Nil forward_def)
next
  case (Cons p ps)
  obtain sl c where p: "p = (sl, c)" by (cases p)
  show ?case using Cons.IH unfolding p
    by (simp add: preserved_Cons forward_append extract_slice_preserve)
qed

lemma preserve_all_nonempty: "t \<in> set (preserved ops q xs ps) \<Longrightarrow> slice_rows t \<noteq> []"
proof (induction ps)
  case Nil
  then show ?case by (simp add: preserved_Nil)
next
  case (Cons p ps)
  obtain sl c where p: "p = (sl, c)" by (cases p)
  from Cons.prems consider
    (here) "t \<in> set (concat (map (kept_of ops q c) (select sl xs)))"
    | (later) "t \<in> set (preserved ops q xs ps)"
    unfolding p preserved_Cons by auto
  then show ?case
  proof cases
    case here
    then show ?thesis using tiled_nonempty [OF preserved_tiled] by blast
  next
    case later
    then show ?thesis by (rule Cons.IH)
  qed
qed

lemma preserve_all_ascending:
  "ascending_from lo (map fst ps) \<Longrightarrow> ascending_from lo (preserved ops q xs ps)"
proof (induction ps arbitrary: lo)
  case Nil
  then show ?case by (simp add: preserved_Nil)
next
  case (Cons p ps)
  obtain sl c where p: "p = (sl, c)" by (cases p)
  from Cons.prems p have lo: "lo \<le> slice_offset sl"
    and rest: "ascending_from (slice_offset sl + length (slice_rows sl)) (map fst ps)" by simp_all
  have "ascending_from (slice_offset sl)
          (concat (map (kept_of ops q c) (select sl xs)) @ preserved ops q xs ps)"
    using preserved_tiled Cons.IH [OF rest] by (rule tiled_then_ascending)
  then show ?case unfolding p preserved_Cons using lo ascending_from_mono by blast
qed

lemma preserve_all_records:
  "concat (map slice_records (preserved ops q xs ps))
     = concat (map (\<lambda>(sl, c). concat (map (\<lambda>sub.
          filter (\<lambda>(i, r). expr q = no_expression \<or> i \<in> evaluate ops c sub) (slice_records sub))
          (select sl xs))) ps)"
proof (induction ps)
  case Nil
  then show ?case by (simp add: preserved_Nil)
next
  case (Cons p ps)
  obtain sl c where p: "p = (sl, c)" by (cases p)
  show ?case using Cons.IH unfolding p preserved_Cons
    by (simp add: preserved_records)
qed

lemma filter_slice_nonempty: "filter_slice ops sl c xs = Some t \<Longrightarrow> slice_rows t \<noteq> []"
  by (auto simp add: filter_slice_def Let_def split: if_splits)

lemma filter_slice_records:
  "filter_slice ops sl c xs = Some t \<Longrightarrow>
     slice_rows t = map snd (filter (\<lambda>(i, r). i \<in> xs \<and> i \<in> hits ops c sl) (slice_records sl))
     \<and> slice_layout t = slice_layout sl"
  by (auto simp add: filter_slice_def Let_def split: if_splits)

lemma drop_all_effects:
  "concat (map (\<lambda>(sl, c). extract_slice ops q sink drop_ids xs sl c) ps)
     = forward sink (concat (map (filtered_of ops xs) ps))"
  by (induction ps)
    (auto simp add: forward_def extract_slice_def filtered_of_def split: option.splits)

lemma drop_all_nonempty:
  "t \<in> set (concat (map (filtered_of ops xs) ps)) \<Longrightarrow> slice_rows t \<noteq> []"
  by (auto simp add: filtered_of_def filter_slice_nonempty split: option.splits)

lemma drop_all_length: "length (concat (map (filtered_of ops xs) ps)) \<le> length ps"
  by (induction ps) (auto simp add: filtered_of_def split: option.splits)

text \<open>
  Claim C7. For an extract query whose checkers could be built, handle_lookup answers
  \<open>done\<close> and every effect is one slice sent to the query's sink; no slice sent is
  empty. With \<open>preserve_ids\<close> each slice is first restricted to the query's ids and
  the checker is evaluated on each restricted sub-slice (not at all for the empty
  expression, which keeps every record): the records sent are, sub-slice by sub-slice,
  those the evaluation hits, and if the input slices are in ascending id order so are
  the slices sent. With \<open>drop_ids\<close> the slices sent are the results of the fused filter,
  at most one per input slice, slices without a result being skipped.
\<close>

theorem extract_dispatch:
  assumes "cmd q = extract_cmd sink policy" and "make_checkers ops q sls = Inr checkers"
  shows "\<exists>outs. handle_lookup ops q xs sls = returns (map (\<lambda>t. send sink (slice_result t)) outs, done_v)
      \<and> (\<forall>t \<in> set outs. slice_rows t \<noteq> [])
      \<and> (policy = preserve_ids \<longrightarrow>
           (\<forall>lo. ascending_from lo sls \<longrightarrow> ascending_from lo outs)
           \<and> concat (map slice_records outs)
               = concat (map (\<lambda>(sl, c). concat (map (\<lambda>sub.
                   filter (\<lambda>(i, r). expr q = no_expression \<or> i \<in> evaluate ops c sub) (slice_records sub))
                   (select sl xs))) (zip sls checkers)))
      \<and> (policy = drop_ids \<longrightarrow>
           length outs \<le> length sls
           \<and> outs = concat (map (\<lambda>(sl, c). case filter_slice ops sl c xs of None \<Rightarrow> [] | Some t \<Rightarrow> [t])
                       (zip sls checkers)))"
proof (cases policy)
  case preserve_ids
  let ?ps = "zip sls checkers"
  let ?outs = "preserved ops q xs ?ps"
  have len: "length checkers = length sls" using assms(2) by (rule make_checkers_length)
  have run: "handle_lookup ops q xs sls = returns (map (\<lambda>t. send sink (slice_result t)) ?outs, done_v)"
    using assms preserve_ids preserve_all_effects [of ops q sink xs ?ps]
    by (simp add: handle_lookup_def forward_def)
  have ne: "\<forall>t \<in> set ?outs. slice_rows t \<noteq> []"
    using preserve_all_nonempty by blast
  have asc: "\<forall>lo. ascending_from lo sls \<longrightarrow> ascending_from lo ?outs"
    using preserve_all_ascending [of _ ?ps ops q xs] len by simp
  have recs: "concat (map slice_records ?outs)
               = concat (map (\<lambda>(sl, c). concat (map (\<lambda>sub.
                   filter (\<lambda>(i, r). expr q = no_expression \<or> i \<in> evaluate ops c sub) (slice_records sub))
                   (select sl xs))) ?ps)"
    by (rule preserve_all_records)
  show ?thesis using run ne asc recs preserve_ids by blast
next
  case drop_ids
  let ?ps = "zip sls checkers"
  let ?outs = "concat (map (filtered_of ops xs) ?ps)"
  have len: "length checkers = length sls" using assms(2) by (rule make_checkers_length)
  have run: "handle_lookup ops q xs sls = returns (map (\<lambda>t. send sink (slice_result t)) ?outs, done_v)"
    using assms drop_ids drop_all_effects [of ops q sink xs ?ps]
    by (simp add: handle_lookup_def forward_def)
  have ne: "\<forall>t \<in> set ?outs. slice_rows t \<noteq> []"
    using drop_all_nonempty by blast
  have le: "length ?outs \<le> length sls"
    using drop_all_length [of ops xs ?ps] len by simp
  have eq: "?outs = concat (map (\<lambda>(sl, c). case filter_slice ops sl c xs of None \<Rightarrow> [] | Some t \<Rightarrow> [t]) ?ps)"
    by (simp add: filtered_of_def case_prod_unfold cong: map_cong)
  show ?thesis using run ne le eq drop_ids by blast
qed

lemma example_checkers:
  "make_checkers example_ops (extract_x42 policy) [slice_a, slice_b]
     = Inr [field_equals ''x'' 42, field_equals ''x'' 42]"
  by (simp add: extract_x42_def example_ops_def slice_a_def slice_b_def conn_def)

lemma example_records:
  "concat (map (\<lambda>(sl, c). concat (map (\<lambda>sub.
       filter (\<lambda>(i, r). expr (extract_x42 preserve_ids) = no_expression
                        \<or> i \<in> evaluate example_ops c sub) (slice_records sub))
       (select sl {10, 11, 13, 20, 21})))
     (zip [slice_a, slice_b] [field_equals ''x'' 42, field_equals ''x'' 42]))
   = [(11, [42]), (13, [42]), (21, [42])]"
  by code_simp

lemma example_filtered:
  "concat (map (\<lambda>(sl, c). case filter_slice example_ops sl c {10, 11, 13, 20, 21} of
                              None \<Rightarrow> [] | Some t \<Rightarrow> [t])
     (zip [slice_a, slice_b] [field_equals ''x'' 42, field_equals ''x'' 42]))
   = [\<lparr>slice_layout = conn, slice_offset = 10, slice_rows = [ [42], [42] ]\<rparr>,
      \<lparr>slice_layout = conn, slice_offset = 20, slice_rows = [ [42] ]\<rparr>]"
  by code_simp

theorem extract_dispatch_witness:
  "cmd (extract_x42 preserve_ids) = extract_cmd 3 preserve_ids
   \<and> cmd (extract_x42 drop_ids) = extract_cmd 3 drop_ids
   \<and> make_checkers example_ops (extract_x42 preserve_ids) [slice_a, slice_b]
       = Inr [field_equals ''x'' 42, field_equals ''x'' 42]
   \<and> make_checkers example_ops (extract_x42 drop_ids) [slice_a, slice_b]
       = Inr [field_equals ''x'' 42, field_equals ''x'' 42]
   \<and> ascending_from 0 [slice_a, slice_b]
   \<and> (\<exists>outs. handle_lookup example_ops (extract_x42 preserve_ids) {10, 11, 13, 20, 21} [slice_a, slice_b]
                = returns (map (\<lambda>t. send 3 (slice_result t)) outs, done_v)
         \<and> ascending_from 0 outs
         \<and> concat (map slice_records outs) = [(11, [42]), (13, [42]), (21, [42])])
   \<and> handle_lookup example_ops (extract_x42 drop_ids) {10, 11, 13, 20, 21} [slice_a, slice_b]
       = returns
           ([send 3 (slice_result \<lparr>slice_layout = conn, slice_offset = 10, slice_rows = [ [42], [42] ]\<rparr>),
             send 3 (slice_result \<lparr>slice_layout = conn, slice_offset = 20, slice_rows = [ [42] ]\<rparr>)],
            done_v)"
proof -
  have c: "cmd (extract_x42 preserve_ids) = extract_cmd 3 preserve_ids"
    by (simp add: extract_x42_def)
  have d: "cmd (extract_x42 drop_ids) = extract_cmd 3 drop_ids"
    by (simp add: extract_x42_def)
  have a: "ascending_from 0 [slice_a, slice_b]" by (simp add: slice_a_def slice_b_def)
  from extract_dispatch [OF c example_checkers, of "{10, 11, 13, 20, 21}"] a
  obtain outs where
    "handle_lookup example_ops (extract_x42 preserve_ids) {10, 11, 13, 20, 21} [slice_a, slice_b]
       = returns (map (\<lambda>t. send 3 (slice_result t)) outs, done_v)"
    and "ascending_from 0 outs"
    and "concat (map slice_records outs) = concat (map (\<lambda>(sl, c). concat (map (\<lambda>sub.
       filter (\<lambda>(i, r). expr (extract_x42 preserve_ids) = no_expression
                        \<or> i \<in> evaluate example_ops c sub) (slice_records sub))
       (select sl {10, 11, 13, 20, 21})))
     (zip [slice_a, slice_b] [field_equals ''x'' 42, field_equals ''x'' 42]))"
    by blast
  then have 1: "\<exists>outs. handle_lookup example_ops (extract_x42 preserve_ids) {10, 11, 13, 20, 21} [slice_a, slice_b]
                = returns (map (\<lambda>t. send 3 (slice_result t)) outs, done_v)
         \<and> ascending_from 0 outs
         \<and> concat (map slice_records outs) = [(11, [42]), (13, [42]), (21, [42])]"
    using example_records by auto
  from extract_dispatch [OF d example_checkers, of "{10, 11, 13, 20, 21}"]
  obtain outs' where
    h: "handle_lookup example_ops (extract_x42 drop_ids) {10, 11, 13, 20, 21} [slice_a, slice_b]
       = returns (map (\<lambda>t. send 3 (slice_result t)) outs', done_v)"
    and o: "outs' = concat (map (\<lambda>(sl, c). case filter_slice example_ops sl c {10, 11, 13, 20, 21} of
                              None \<Rightarrow> [] | Some t \<Rightarrow> [t])
     (zip [slice_a, slice_b] [field_equals ''x'' 42, field_equals ''x'' 42]))"
    by blast
  have o': "outs' = [\<lparr>slice_layout = conn, slice_offset = 10, slice_rows = [ [42], [42] ]\<rparr>,
                    \<lparr>slice_layout = conn, slice_offset = 20, slice_rows = [ [42] ]\<rparr>]"
    using o example_filtered by (rule trans)
  have 2: "handle_lookup example_ops (extract_x42 drop_ids) {10, 11, 13, 20, 21} [slice_a, slice_b]
       = returns
           ([send 3 (slice_result \<lparr>slice_layout = conn, slice_offset = 10, slice_rows = [ [42], [42] ]\<rparr>),
             send 3 (slice_result \<lparr>slice_layout = conn, slice_offset = 20, slice_rows = [ [42] ]\<rparr>)],
            done_v)"
    unfolding h o' by simp
  show ?thesis using c d a example_checkers 1 2 by simp
qed

text \<open>
  Claim C4. A count query that handle_lookup answers with \<open>done\<close> has mode
  \<open>exact\<close>, and one count per slice was sent for it. With mode \<open>estimate\<close>
  handle_lookup never returns a count: once the checkers are built it aborts the
  process with "logic error detected"; if tailoring fails before, that failure is
  returned and nothing is sent.
\<close>

theorem count_estimate_aborts:
  assumes "cmd q = count_cmd sink mode"
  shows "(\<forall>effs. handle_lookup ops q xs sls = returns (effs, done_v) \<longrightarrow>
            mode = exact \<and> length effs = length sls)
      \<and> (mode = estimate \<longrightarrow>
           (\<forall>cs. make_checkers ops q sls = Inr cs \<longrightarrow>
              handle_lookup ops q xs sls = aborts ''logic error detected'')
           \<and> (\<forall>e. make_checkers ops q sls = Inl e \<longrightarrow>
              handle_lookup ops q xs sls = returns ([], failed e)))"
proof -
  have "mode = exact \<and> length effs = length sls"
    if "handle_lookup ops q xs sls = returns (effs, done_v)" for effs
  proof (cases "make_checkers ops q sls")
    case (Inl e)
    then show ?thesis using that by (simp add: handle_lookup_def)
  next
    case (Inr cs)
    have len: "length cs = length sls" using Inr by (rule make_checkers_length)
    show ?thesis
    proof (cases mode)
      case estimate
      then show ?thesis using that assms Inr by (simp add: handle_lookup_def)
    next
      case exact
      then show ?thesis using that assms Inr len by (auto simp add: handle_lookup_def)
    qed
  qed
  moreover have "handle_lookup ops q xs sls = aborts ''logic error detected''"
    if "mode = estimate" "make_checkers ops q sls = Inr cs" for cs
    using that assms by (simp add: handle_lookup_def)
  moreover have "handle_lookup ops q xs sls = returns ([], failed e)"
    if "make_checkers ops q sls = Inl e" for e
    using that by (simp add: handle_lookup_def)
  ultimately show ?thesis by blast
qed

lemma count_exact_example:
  "handle_lookup example_ops (count_all exact) UNIV [slice_a, slice_b]
     = returns ([send 3 (count_result 4), send 3 (count_result 2)], done_v)"
  by code_simp

theorem count_estimate_aborts_witness:
  "cmd (count_all estimate) = count_cmd 3 estimate
   \<and> cmd (count_all exact) = count_cmd 3 exact
   \<and> cmd count_unknown = count_cmd 3 estimate
   \<and> make_checkers example_ops (count_all estimate) [slice_a, slice_b] = Inr [no_expression, no_expression]
   \<and> make_checkers example_ops count_unknown [slice_a, slice_b]
       = Inl (Error invalid_query ''unknown field'')
   \<and> handle_lookup example_ops (count_all estimate) UNIV [slice_a, slice_b] = aborts ''logic error detected''
   \<and> handle_lookup example_ops count_unknown UNIV [slice_a, slice_b]
       = returns ([], failed (Error invalid_query ''unknown field''))
   \<and> handle_lookup example_ops (count_all exact) UNIV [slice_a, slice_b]
       = returns ([send 3 (count_result 4), send 3 (count_result 2)], done_v)
   \<and> length [send 3 (count_result 4), send 3 (count_result 2)] = length [slice_a, slice_b]"
proof -
  have c: "cmd (count_all estimate) = count_cmd 3 estimate" by (simp add: count_all_def)
  have x: "cmd (count_all exact) = count_cmd 3 exact" by (simp add: count_all_def)
  have u: "cmd count_unknown = count_cmd 3 estimate" by (simp add: count_unknown_def)
  have m: "make_checkers example_ops (count_all estimate) [slice_a, slice_b] = Inr [no_expression, no_expression]"
    by (simp add: count_all_def)
  have n: "make_checkers example_ops count_unknown [slice_a, slice_b]
       = Inl (Error invalid_query ''unknown field'')"
    by (simp add: count_unknown_def example_ops_def slice_a_def conn_def)
  have 1: "handle_lookup example_ops (count_all estimate) UNIV [slice_a, slice_b] = aborts ''logic error detected''"
    using count_estimate_aborts [OF c, of example_ops UNIV "[slice_a, slice_b]"] m by simp
  have 2: "handle_lookup example_ops count_unknown UNIV [slice_a, slice_b]
       = returns ([], failed (Error invalid_query ''unknown field''))"
    using count_estimate_aborts [OF u, of example_ops UNIV "[slice_a, slice_b]"] n by simp
  have 3: "length [send 3 (count_result 4), send 3 (count_result 2)] = length [slice_a, slice_b]"
    using count_estimate_aborts [OF x, of example_ops UNIV "[slice_a, slice_b]"] count_exact_example
    by simp
  show ?thesis using c x u m n 1 2 3 count_exact_example by simp
qed

section \<open>Properties of the passive store\<close>

text \<open>
  The stores of the examples are states of the program: the spawned store reaches
  each of them by handling one message.
\<close>

lemma spawned_store_fields:
  "segment spawned_store = None"
  "deferred_requests spawned_store = []"
  "path spawned_store = \<lparr>parent_path = [], stem = [], extension = []\<rparr>"
  "fs spawned_store = None"
  by (simp_all add: spawned_store_def passive_local_store_spawn_def)

lemma loading_store_reached:
  "passive_local_store a ops (spawned_store, w) (query_msg (count_all exact) UNIV (Some 6))
     = continue (loading_store, w) []"
  by (simp add: passive_local_store_def passive_query_def with_fs_def loading_store_def
      spawned_store_fields)

lemma loaded_store_reached:
  "passive_local_store a ops (spawned_store, w)
       (mmap_response (Inr (segment_chunk example_segment)))
     = continue (loaded_store, w) []"
  by (simp add: passive_local_store_def passive_mmap_done_def with_fs_def loaded_store_def
      segment_make_def segment_chunk_def spawned_store_def passive_local_store_spawn_def)

lemma conflicting_store_reached:
  "passive_local_store a ops (spawned_store, w)
       (mmap_response (Inr (segment_chunk conflicting_segment)))
     = continue (conflicting_store, w) []"
  by (simp add: passive_local_store_def passive_mmap_done_def with_fs_def conflicting_store_def
      segment_make_def segment_chunk_def spawned_store_def passive_local_store_spawn_def)

lemma loaded_store_fields:
  "segment loaded_store = Some example_segment"
  "deferred_requests loaded_store = []"
  "path loaded_store = \<lparr>parent_path = [], stem = [], extension = []\<rparr>"
  "fs loaded_store = None"
  by (simp_all add: loaded_store_def spawned_store_fields)













lemma count_loaded:
  assumes "segment st = Some example_segment"
  shows "passive_query example_ops st (count_all exact) UNIV rp
     = continue st [send 3 (count_result 4), send 3 (count_result 2), answer rp done_v]"
  using assms
  by (simp add: passive_query_def count_all_def segment_lookup_def
      example_segment_def handle_lookup_def count_matching_def hits_def slice_ids_def
      slice_a_def slice_b_def)








lemma self_msgs_to_self: "self_msgs (map to_self ms) = ms"
  by (induction ms) simp_all

lemma visible_to_self: "visible (map to_self ms) = []"
  by (induction ms) simp_all

lemma run_silent_step:
  assumes "passive_local_store a ops cfg m = continue cfg' effs" and "visible effs = []"
  shows "run a ops (Suc n) cfg (m # mb) = run a ops n cfg' (mb @ self_msgs effs)"
  using assms by (auto split: option.splits)

text \<open>
  Requests that arrive before the segment is loaded are stored in their order, each
  with a promise that belongs to no request.
\<close>

lemma defer_queries:
  assumes "segment st = None"
  shows "run a ops (length reqs + n) (st, w) (map (\<lambda>(q, xs, rp). query_msg q xs rp) reqs @ mb)
           = run a ops n
               (st\<lparr>deferred_requests :=
                     deferred_requests st @ map (\<lambda>(q, xs, rp). (q, xs, None)) reqs\<rparr>, w) mb"
  using assms
proof (induction reqs arbitrary: st)
  case Nil
  then show ?case by simp
next
  case (Cons r reqs)
  obtain q xs rp where r: "r = (q, xs, rp)" by (cases r)
  let ?st' = "st\<lparr>deferred_requests := deferred_requests st @ [(q, xs, None)]\<rparr>"
  have step: "passive_local_store a ops (st, w) (query_msg q xs rp) = continue (?st', w) []"
    using Cons.prems by (simp add: passive_local_store_def passive_query_def with_fs_def)
  have none: "segment ?st' = None" using Cons.prems by simp
  have "run a ops (length (r # reqs) + n) (st, w)
          (map (\<lambda>(q, xs, rp). query_msg q xs rp) (r # reqs) @ mb)
        = run a ops (length reqs + n) (?st', w) (map (\<lambda>(q, xs, rp). query_msg q xs rp) reqs @ mb)"
    using run_silent_step [OF step, of "length reqs + n"] by (simp add: r)
  also have "\<dots> = run a ops n
       (?st'\<lparr>deferred_requests :=
               deferred_requests ?st' @ map (\<lambda>(q, xs, rp). (q, xs, None)) reqs\<rparr>, w) mb"
    by (rule Cons.IH [OF none])
  finally show ?case by (simp add: r)
qed

text \<open>
  After a successful load the stored requests are handled in their order, each as a
  message without a requester.
\<close>

lemma load_replays:
  assumes "segment_make c = Inr seg"
  shows "run a ops (Suc n) (st, w) [mmap_response (Inr c)]
           = run a ops n (st\<lparr>segment := Some seg, deferred_requests := []\<rparr>, w)
               (map (\<lambda>(q, xs, rp). query_msg q xs rp) (deferred_requests st))"
proof -
  let ?effs = "map (\<lambda>(q, xs, rp). to_self (query_msg q xs rp)) (deferred_requests st)"
  have eq: "?effs = map to_self (map (\<lambda>(q, xs, rp). query_msg q xs rp) (deferred_requests st))"
    by (simp add: case_prod_unfold)
  have step: "passive_local_store a ops (st, w) (mmap_response (Inr c))
      = continue (st\<lparr>segment := Some seg, deferred_requests := []\<rparr>, w) ?effs"
    using assms by (simp add: passive_local_store_def passive_mmap_done_def with_fs_def)
  have vis: "visible ?effs = []" unfolding eq by (rule visible_to_self)
  have self: "self_msgs ?effs = map (\<lambda>(q, xs, rp). query_msg q xs rp) (deferred_requests st)"
    unfolding eq by (rule self_msgs_to_self)
  show ?thesis using run_silent_step [OF step vis, of n "[]"] self by simp
qed

lemma deferred_replay:
  assumes "segment_make c = Inr seg" and "segment st = None" and "deferred_requests st = []"
  shows "run a ops (Suc (length reqs) + n) (st, w)
           (map (\<lambda>(q, xs, rp). query_msg q xs rp) reqs @ [mmap_response (Inr c)])
         = run a ops n (st\<lparr>segment := Some seg\<rparr>, w)
             (map (\<lambda>(q, xs, rp). query_msg q xs None) reqs)"
proof -
  let ?st' = "st\<lparr>deferred_requests := map (\<lambda>(q, xs, rp). (q, xs, None)) reqs\<rparr>"
  have e: "st\<lparr>segment := Some seg, deferred_requests := []\<rparr> = st\<lparr>segment := Some seg\<rparr>"
    using assms(3) by (cases st) simp
  have "run a ops (Suc (length reqs) + n) (st, w)
          (map (\<lambda>(q, xs, rp). query_msg q xs rp) reqs @ [mmap_response (Inr c)])
        = run a ops (Suc n) (?st', w) [mmap_response (Inr c)]"
    using defer_queries [OF assms(2), of a ops reqs "Suc n" w "[mmap_response (Inr c)]"] assms(3)
    by simp
  also have "\<dots> = run a ops n (?st'\<lparr>segment := Some seg, deferred_requests := []\<rparr>, w)
             (map (\<lambda>(q, xs, rp). query_msg q xs rp) (deferred_requests ?st'))"
    by (rule load_replays [OF assms(1)])
  also have "\<dots> = run a ops n (st\<lparr>segment := Some seg\<rparr>, w)
             (map (\<lambda>(q, xs, rp). query_msg q xs None) reqs)"
    by (simp add: case_prod_unfold comp_def e)
  finally show ?thesis .
qed

lemma count_run_loaded:
  "run a example_ops (Suc n) (loaded_store, example_disk) [query_msg (count_all exact) UNIV rp]
     = Some ([send 3 (count_result 4), send 3 (count_result 2), answer rp done_v],
             idle loaded_store example_disk)"
  by (simp add: passive_local_store_def with_fs_def count_loaded [OF loaded_store_fields(1)]
      answer_def split: option.splits)

text \<open>
  Claim C5, at one request. A count over all ids, sent with promise 6, reaches the
  store the program builds before the segment is loaded; then the load succeeds. The
  counts go to the sink, and the answer \<open>done\<close> goes to nobody: the request was
  stored with a promise that belongs to no request, and promise 6 is never answered.
  The store that was loaded when the same request arrived answers promise 6 with
  \<open>done\<close>.
\<close>

theorem deferred_request_never_answered:
  "run a example_ops 3 (spawned_store, example_disk)
     [query_msg (count_all exact) UNIV (Some 6),
      mmap_response (Inr (segment_chunk example_segment))]
   = Some ([send 3 (count_result 4), send 3 (count_result 2), dropped done_v],
           idle loaded_store example_disk)
   \<and> run a example_ops 1 (loaded_store, example_disk)
       [query_msg (count_all exact) UNIV (Some 6)]
   = Some ([send 3 (count_result 4), send 3 (count_result 2), deliver 6 done_v],
           idle loaded_store example_disk)"
proof -
  have m: "segment_make (segment_chunk example_segment) = Inr example_segment"
    by (simp add: segment_make_def segment_chunk_def)
  have l: "spawned_store\<lparr>segment := Some example_segment\<rparr> = loaded_store"
    by (simp add: loaded_store_def)
  have "run a example_ops (Suc (length [(count_all exact, UNIV :: ids, Some (6 :: promise))]) + 1)
          (spawned_store, example_disk)
          (map (\<lambda>(q, xs, rp). query_msg q xs rp) [(count_all exact, UNIV, Some 6)]
             @ [mmap_response (Inr (segment_chunk example_segment))])
        = run a example_ops 1 (spawned_store\<lparr>segment := Some example_segment\<rparr>, example_disk)
            (map (\<lambda>(q, xs, rp). query_msg q xs None) [(count_all exact, UNIV :: ids, Some (6 :: promise))])"
    by (rule deferred_replay [OF m spawned_store_fields(1) spawned_store_fields(2)])
  then have 1: "run a example_ops 3 (spawned_store, example_disk)
     [query_msg (count_all exact) UNIV (Some 6),
      mmap_response (Inr (segment_chunk example_segment))]
   = run a example_ops (Suc 0) (loaded_store, example_disk) [query_msg (count_all exact) UNIV None]"
    by (simp add: l numeral_3_eq_3)
  have 2: "run a example_ops 1 (loaded_store, example_disk)
       [query_msg (count_all exact) UNIV (Some 6)]
   = Some ([send 3 (count_result 4), send 3 (count_result 2), deliver 6 done_v],
           idle loaded_store example_disk)"
    using count_run_loaded [of a 0 "Some 6"] by (simp add: answer_def)
  show ?thesis using 1 2 count_run_loaded [of a 0 None] by (simp add: answer_def)
qed

lemma mmap_error_quits:
  "passive_local_store a ops (st, w) (mmap_response (Inl e)) = quits e"
  by (simp add: passive_local_store_def passive_mmap_done_def with_fs_def)

text \<open>
  A chunk that does not parse: the exit handler gives \<open>lookup_error\<close> to the stored
  promise of every deferred request.
\<close>

lemma parse_failure_fails_all:
  assumes "segment_make c = Inl e"
  shows "run a ops (Suc (Suc n)) (st, w) [mmap_response (Inr c)]
           = Some (log_error ''couldnt create segment from chunk''
                   # map (\<lambda>(q, xs, rp). answer rp (failed (Error lookup_error ''partition store shutting down'')))
                       (deferred_requests st),
                   idle (st\<lparr>deferred_requests := []\<rparr>) w)"
proof -
  have v: "visible (map (\<lambda>(q, xs, rp). answer rp (failed (Error lookup_error ''partition store shutting down''))) ds)
         = map (\<lambda>(q, xs, rp). answer rp (failed (Error lookup_error ''partition store shutting down''))) ds"
    for ds :: "(query \<times> ids \<times> promise option) list"
    by (induction ds) (auto simp add: answer_def split: option.splits)
  have s: "self_msgs (map (\<lambda>(q, xs, rp). answer rp (failed (Error lookup_error ''partition store shutting down''))) ds) = []"
    for ds :: "(query \<times> ids \<times> promise option) list"
    by (induction ds) (auto simp add: answer_def split: option.splits)
  show ?thesis using assms
    by (simp add: passive_local_store_def passive_mmap_done_def passive_exit_def with_fs_def v s)
qed

text \<open>
  Claim C2, at the store the program builds after it deferred one request, a count
  sent with promise 6. If the mmap request fails, the run ends with the actor
  terminated and nothing delivered: the deferred request gets no \<open>lookup_error\<close>. If
  the chunk does not parse, the exit handler gives \<open>lookup_error\<close> to the stored
  promise, which belongs to no request: promise 6 gets no \<open>lookup_error\<close> either.
\<close>

theorem mmap_failure_leaves_deferred_unanswered:
  "run a example_ops 1 (loading_store, example_disk)
     [mmap_response (Inl (Error io_error ''no such file''))]
   = Some ([], terminated (Error io_error ''no such file''))
   \<and> run a example_ops 2 (loading_store, example_disk) [mmap_response (Inr (unparsable ''junk''))]
   = Some ([log_error ''couldnt create segment from chunk'',
            dropped (failed (Error lookup_error ''partition store shutting down''))],
           idle (loading_store\<lparr>deferred_requests := []\<rparr>) example_disk)"
proof -
  have a: "run a example_ops 1 (loading_store, example_disk)
     [mmap_response (Inl (Error io_error ''no such file''))]
   = Some ([], terminated (Error io_error ''no such file''))"
    using mmap_error_quits [of a example_ops loading_store example_disk "Error io_error ''no such file''"]
    by (simp add: numeral_eq_Suc)
  have p: "segment_make (unparsable ''junk'') = Inl (Error format_error ''not a segment'')"
    by (simp add: segment_make_def)
  have d: "deferred_requests loading_store = [(count_all exact, UNIV, None)]"
    by (simp add: loading_store_def)
  have b: "run a example_ops 2 (loading_store, example_disk) [mmap_response (Inr (unparsable ''junk''))]
   = Some ([log_error ''couldnt create segment from chunk'',
            dropped (failed (Error lookup_error ''partition store shutting down''))],
           idle (loading_store\<lparr>deferred_requests := []\<rparr>) example_disk)"
    using parse_failure_fails_all [OF p, of a example_ops 0 loading_store example_disk] d
    by (simp add: numeral_2_eq_2 answer_def)
  show ?thesis using a b by simp
qed

section \<open>Properties of the query supervisor\<close>

lemma sv_inv_supervise:
  "sv_inv self master client q (length parts) (sum_list (map card parts)) []
     (supervise (query_supervisor self master) q parts client)"
  by (simp add: sv_inv_def supervise_def query_supervisor_def finish_if_complete_def)

lemma sum_list_take_drop:
  fixes f :: "'a \<Rightarrow> nat"
  shows "i < length xs \<Longrightarrow> sum_list (map f (take i xs @ drop (Suc i) xs)) + f (xs ! i) = sum_list (map f xs)"
proof -
  assume "i < length xs"
  then have "xs = take i xs @ (xs ! i) # drop (Suc i) xs" by (simp add: id_take_nth_drop)
  then have "sum_list (map f xs) = sum_list (map f (take i xs @ (xs ! i) # drop (Suc i) xs))" by simp
  then show ?thesis by simp
qed

lemma sv_inv_partition:
  assumes "sv_inv self master client q n tot cs sys"
    and "cmd q = count_cmd client mode"
    and "partition_handles_query i sys = Some sys'"
  shows "sv_inv self master client q n tot (cs @ [card (waiting sys ! i)]) sys'"
proof -
  from assms(3) have i: "i < length (waiting sys)"
    by (auto simp add: partition_handles_query_def split: if_splits)
  have q: "sv_query sys = q" "sv_client sys = client" using assms(1) by (simp_all add: sv_inv_def)
  from assms(3) i q assms(2) have sys': "sys' = sys\<lparr>waiting := take i (waiting sys) @ drop (Suc i) (waiting sys),
                       responses := Suc (responses sys),
                       delivered := delivered sys @ [(client, count_msg (card (waiting sys ! i)))]\<rparr>"
    by (simp add: partition_handles_query_def dummy_partition_def)
  have len: "length (take i (waiting sys) @ drop (Suc i) (waiting sys)) = length (waiting sys) - 1"
    using i by simp
  have pos: "open_requests sys \<noteq> 0" using assms(1) i by (cases "waiting sys") (auto simp add: sv_inv_def)
  have sum: "sum_list (map card (take i (waiting sys) @ drop (Suc i) (waiting sys))) + card (waiting sys ! i)
      = sum_list (map card (waiting sys))"
    using i by (rule sum_list_take_drop)
  show ?thesis
    using assms(1) i pos sum unfolding sys' sv_inv_def
    by (simp add: len)
qed

lemma sv_inv_supervisor:
  assumes "sv_inv self master client q n tot cs sys"
    and "supervisor_handles_done sys = Some sys'"
  shows "sv_inv self master client q n tot cs sys'"
proof -
  from assms(2) have r: "responses sys \<noteq> 0"
    by (auto simp add: supervisor_handles_done_def split: if_splits)
  have opn: "open_requests sys = length (waiting sys) + responses sys"
    using assms(1) by (simp add: sv_inv_def)
  then have pos: "open_requests sys \<noteq> 0" using r by simp
  from assms(2) r have sys': "sys' = finish_if_complete
      (sys\<lparr>responses := responses sys - 1, open_requests := open_requests sys - 1\<rparr>)"
    by (simp add: supervisor_handles_done_def)
  show ?thesis
  proof (cases "open_requests sys - 1 = 0")
    case True
    have "length (waiting sys) = 0" using True opn r by arith
    moreover have "responses sys = 1" using True opn r by arith
    ultimately show ?thesis
      using assms(1) pos True unfolding sys' sv_inv_def finish_if_complete_def by simp
  next
    case False
    then show ?thesis
      using assms(1) pos r unfolding sys' sv_inv_def finish_if_complete_def by simp
  qed
qed

lemma sv_inv_exec:
  assumes "cmd q = count_cmd client mode"
  shows "sv_inv self master client q n tot cs sys \<Longrightarrow> exec sched sys = Some sys' \<Longrightarrow>
           \<exists>cs'. sv_inv self master client q n tot cs' sys'"
proof (induction sched arbitrary: sys cs)
  case Nil
  then show ?case by auto
next
  case (Cons ev sched)
  show ?case
  proof (cases ev)
    case (partition_runs i)
    with Cons.prems(2) obtain sys1 where
      s1: "partition_handles_query i sys = Some sys1" and rest: "exec sched sys1 = Some sys'"
      by (auto split: option.splits)
    from sv_inv_partition [OF Cons.prems(1) assms s1] Cons.IH rest show ?thesis by blast
  next
    case supervisor_runs
    with Cons.prems(2) obtain sys1 where
      s1: "supervisor_handles_done sys = Some sys1" and rest: "exec sched sys1 = Some sys'"
      by (auto split: option.splits)
    from sv_inv_supervisor [OF Cons.prems(1) s1] Cons.IH rest show ?thesis by blast
  qed
qed

text \<open>
  Claim C9. A count query is supervised across \<open>n\<close> partitions that answer with
  the counts of their id sets. Whatever the order in which the partitions and the
  supervisor handle their messages, once nothing is left to handle the master and the
  client have received, in this order: the registration of the supervisor, \<open>n\<close>
  counts to the client whose sum is the sum of the partitions' counts, one \<open>done\<close> to
  the client, and the supervisor's registration as a worker again.
\<close>

theorem supervised_count_aggregates:
  assumes "cmd q = count_cmd client mode"
    and "exec sched (supervise (query_supervisor self master) q parts client) = Some sys"
    and "quiescent sys"
  shows "\<exists>cs. delivered sys =
                (master, worker_msg self) # map (\<lambda>c. (client, count_msg c)) cs
                @ [(client, done_msg), (master, worker_msg self)]
             \<and> length cs = length parts
             \<and> sum_list cs = sum_list (map card parts)"
proof -
  from sv_inv_exec [OF assms(1) sv_inv_supervise assms(2)]
  obtain cs where inv: "sv_inv self master client q (length parts) (sum_list (map card parts)) cs sys"
    by blast
  from assms(3) have w: "waiting sys = []" "responses sys = 0" by (simp_all add: quiescent_def)
  from inv w have "open_requests sys = 0" by (simp add: sv_inv_def)
  with inv w show ?thesis by (auto simp add: sv_inv_def)
qed

text \<open>Every supervised query has a schedule that runs to the end.\<close>

lemma exec_append:
  "exec (a @ b) sys = (case exec a sys of None \<Rightarrow> None | Some sys' \<Rightarrow> exec b sys')"
proof (induction a arbitrary: sys)
  case Nil
  then show ?case by simp
next
  case (Cons ev a)
  then show ?case by (cases ev) (auto split: option.splits)
qed

lemma drain_partitions:
  assumes "cmd q = count_cmd client mode"
  shows "sv_query sys = q \<Longrightarrow>
         \<exists>sys'. exec (replicate (length (waiting sys)) (partition_runs 0)) sys = Some sys'
           \<and> waiting sys' = [] \<and> responses sys' = responses sys + length (waiting sys)"
proof (induction "length (waiting sys)" arbitrary: sys)
  case 0
  then show ?case by simp
next
  case (Suc k)
  from Suc.hyps(2) obtain x rest where ws: "waiting sys = x # rest" by (cases "waiting sys") auto
  let ?sys1 = "sys\<lparr>waiting := rest, responses := Suc (responses sys),
                   delivered := delivered sys @ [(client, count_msg (card x))]\<rparr>"
  have step: "partition_handles_query 0 sys = Some ?sys1"
    using ws Suc.prems assms by (simp add: partition_handles_query_def dummy_partition_def)
  have k: "k = length (waiting ?sys1)" using Suc.hyps(2) ws by simp
  have q1: "sv_query ?sys1 = q" using Suc.prems by simp
  from Suc.hyps(1) [OF k q1] obtain sys' where
    "exec (replicate (length (waiting ?sys1)) (partition_runs 0)) ?sys1 = Some sys'"
    "waiting sys' = []" "responses sys' = responses ?sys1 + length (waiting ?sys1)"
    by blast
  then show ?case using step ws by simp
qed

lemma drain_responses:
  "\<exists>sys'. exec (replicate (responses sys) supervisor_runs) sys = Some sys'
           \<and> responses sys' = 0 \<and> waiting sys' = waiting sys"
proof (induction "responses sys" arbitrary: sys)
  case 0
  then show ?case by simp
next
  case (Suc k)
  let ?sys1 = "finish_if_complete
      (sys\<lparr>responses := responses sys - 1, open_requests := open_requests sys - 1\<rparr>)"
  have r: "responses sys = Suc k" using Suc.hyps(2) by simp
  have step: "supervisor_handles_done sys = Some ?sys1"
    unfolding supervisor_handles_done_def r by simp
  have r1: "responses ?sys1 = k" unfolding finish_if_complete_def r by simp
  have w1: "waiting ?sys1 = waiting sys" unfolding finish_if_complete_def by simp
  have "k = responses ?sys1" using r1 by simp
  from Suc.hyps(1) [OF this] obtain sys' where
    run: "exec (replicate (responses ?sys1) supervisor_runs) ?sys1 = Some sys'"
    and fin: "responses sys' = 0" "waiting sys' = waiting ?sys1"
    by blast
  have "exec (replicate (Suc k) supervisor_runs) sys = Some sys'"
    using run step unfolding r1 by simp
  then show ?case unfolding r using fin w1 by simp
qed

lemma complete_schedule_exists:
  assumes "cmd q = count_cmd client mode"
  shows "\<exists>sched sys. exec sched (supervise (query_supervisor self master) q parts client) = Some sys
           \<and> quiescent sys"
proof -
  let ?s0 = "supervise (query_supervisor self master) q parts client"
  have q0: "sv_query ?s0 = q" by (simp add: supervise_def finish_if_complete_def)
  from drain_partitions [OF assms q0] obtain s1 where
    s1: "exec (replicate (length (waiting ?s0)) (partition_runs 0)) ?s0 = Some s1"
    and w1: "waiting s1 = []" by blast
  from drain_responses [of s1] obtain s2 where
    s2: "exec (replicate (responses s1) supervisor_runs) s1 = Some s2"
    and r2: "responses s2 = 0" and w2: "waiting s2 = waiting s1" by blast
  have "exec (replicate (length (waiting ?s0)) (partition_runs 0)
              @ replicate (responses s1) supervisor_runs) ?s0 = Some s2"
    using s1 s2 by (simp add: exec_append)
  moreover have "quiescent s2" using w1 w2 r2 by (simp add: quiescent_def)
  ultimately show ?thesis by blast
qed

lemma test_run_delivered:
  "map_option delivered
     (exec test_schedule (supervise (query_supervisor 2 1) test_query test_partitions 1))
   = Some [(1, worker_msg 2), (1, count_msg 2), (1, count_msg 5), (1, count_msg 2),
           (1, done_msg), (1, worker_msg 2)]"
  by code_simp

lemma test_run_quiescent:
  "map_option quiescent
     (exec test_schedule (supervise (query_supervisor 2 1) test_query test_partitions 1))
   = Some True"
  by code_simp

theorem supervised_count_aggregates_witness:
  "cmd test_query = count_cmd 1 estimate
   \<and> (\<exists>sys cs. exec test_schedule (supervise (query_supervisor 2 1) test_query test_partitions 1) = Some sys
        \<and> quiescent sys
        \<and> delivered sys = (1, worker_msg 2) # map (\<lambda>c. (1, count_msg c)) cs
                            @ [(1, done_msg), (1, worker_msg 2)]
        \<and> length cs = 3 \<and> sum_list cs = 9)"
proof -
  have c: "cmd test_query = count_cmd 1 estimate" by (simp add: test_query_def)
  from test_run_quiescent obtain sys where
    e: "exec test_schedule (supervise (query_supervisor 2 1) test_query test_partitions 1) = Some sys"
    and qu: "quiescent sys" by auto
  from supervised_count_aggregates [OF c e qu] obtain cs where
    "delivered sys = (1, worker_msg 2) # map (\<lambda>c. (1, count_msg c)) cs
                            @ [(1, done_msg), (1, worker_msg 2)]"
    "length cs = length test_partitions" "sum_list cs = sum_list (map card test_partitions)"
    by blast
  moreover have "length test_partitions = 3" "sum_list (map card test_partitions) = 9"
    by (simp_all add: test_partitions_def)
  ultimately show ?thesis using c e qu by auto
qed


end
